theory Spec2Isabelle
  imports Main
begin

section \<open>The email extractor (\<^verbatim>\<open>extract_email\<close>, cloud.py lines 22-27)\<close>

text \<open>
  Text is a list of 8-bit characters and stands for ASCII text. The pattern of the source,
  \<^verbatim>\<open>\b[A-Za-z0-9._%+-]+@[A-Za-z0-9.-]+\.[A-Z|a-z]{2,}\b\<close>, is a sequence of
  word-boundary assertions, literal characters and greedy repetitions of a character class.
  The engine below is the backtracking matcher of Python's \<^verbatim>\<open>re\<close> restricted
  to such sequences: a repetition first takes as many characters as it can and gives them
  back one at a time while the rest of the pattern fails.
\<close>

datatype item = WordBoundary | Lit char | Rep "char list" nat

definition upper_chars :: "char list" where
  "upper_chars = ''ABCDEFGHIJKLMNOPQRSTUVWXYZ''"

definition lower_chars :: "char list" where
  "lower_chars = ''abcdefghijklmnopqrstuvwxyz''"

definition digit_chars :: "char list" where
  "digit_chars = ''0123456789''"

text \<open>The three character classes of the pattern, ranges written out.\<close>

definition local_chars :: "char list" where
  "local_chars = upper_chars @ lower_chars @ digit_chars @ ''._%+-''"

definition domain_chars :: "char list" where
  "domain_chars = upper_chars @ lower_chars @ digit_chars @ ''.-''"

text \<open>\<^verbatim>\<open>[A-Z|a-z]\<close>: inside a class the bar is a literal character.\<close>

definition tld_chars :: "char list" where
  "tld_chars = upper_chars @ ''|'' @ lower_chars"

definition email_pattern :: "item list" where
  "email_pattern =
     [WordBoundary, Rep local_chars 1, Lit CHR ''@'', Rep domain_chars 1,
      Lit CHR ''.'', Rep tld_chars 2, WordBoundary]"

text \<open>\<^verbatim>\<open>\w\<close> on ASCII text: letters, digits and the underscore.\<close>

definition is_word :: "char \<Rightarrow> bool" where
  "is_word c = (c \<in> set (upper_chars @ lower_chars @ digit_chars @ ''_''))"

text \<open>
  A position in the text is the character before it (if any) and the text from it on.
  \<^verbatim>\<open>\b\<close> holds where exactly one of the two neighbours is a word character; the
  two ends of the text count as non-word.
\<close>

definition at_boundary :: "char option \<Rightarrow> string \<Rightarrow> bool" where
  "at_boundary p s =
     ((case p of None \<Rightarrow> False | Some c \<Rightarrow> is_word c) \<noteq>
      (case s of [] \<Rightarrow> False | c # _ \<Rightarrow> is_word c))"

text \<open>The character before the position reached after consuming \<open>xs\<close>.\<close>

definition prev_after :: "char option \<Rightarrow> string \<Rightarrow> char option" where
  "prev_after p xs = (if xs = [] then p else Some (last xs))"

primrec first_success :: "('a \<Rightarrow> 'b option) \<Rightarrow> 'a list \<Rightarrow> 'b option" where
  "first_success f [] = None"
| "first_success f (k # ks) =
     (case f k of Some r \<Rightarrow> Some r | None \<Rightarrow> first_success f ks)"

text \<open>
  The counts a greedy repetition of at least \<open>n\<close> characters of the class tries at the
  text \<open>s\<close>, in the order it tries them: from the longest run down to \<open>n\<close>.
\<close>

definition rep_counts :: "char list \<Rightarrow> nat \<Rightarrow> string \<Rightarrow> nat list" where
  "rep_counts cls n s = rev [n ..< Suc (length (takeWhile (\<lambda>c. c \<in> set cls) s))]"

text \<open>
  \<open>match_here its p s\<close>: the text matched by the items \<open>its\<close> at the position
  \<open>(p, s)\<close>, or \<open>None\<close>.
\<close>

primrec match_here :: "item list \<Rightarrow> char option \<Rightarrow> string \<Rightarrow> string option" where
  "match_here [] p s = Some []"
| "match_here (it # its) p s =
     (case it of
        WordBoundary \<Rightarrow> if at_boundary p s then match_here its p s else None
      | Lit c \<Rightarrow>
          (case s of
             [] \<Rightarrow> None
           | x # xs \<Rightarrow>
               if x = c then map_option ((#) x) (match_here its (Some x) xs) else None)
      | Rep cls n \<Rightarrow>
          first_success
            (\<lambda>k. map_option ((@) (take k s))
                   (match_here its (prev_after p (take k s)) (drop k s)))
            (rep_counts cls n s))"

text \<open>
  \<^verbatim>\<open>re.findall\<close>: the matches from left to right, each search resuming where the
  previous match ended (one character further after an empty match).
\<close>

fun findall :: "item list \<Rightarrow> char option \<Rightarrow> string \<Rightarrow> string list" where
  "findall its p [] = (case match_here its p [] of None \<Rightarrow> [] | Some m \<Rightarrow> [m])"
| "findall its p (x # xs) =
     (case match_here its p (x # xs) of
        None \<Rightarrow> findall its (Some x) xs
      | Some m \<Rightarrow>
          m # findall its (Some (last (x # take (length m - 1) xs)))
                (drop (length m - 1) xs))"

text \<open>\<^verbatim>\<open>str.strip(chars)\<close>: drop the given characters from both ends.\<close>

definition strip :: "char list \<Rightarrow> string \<Rightarrow> string" where
  "strip cs s =
     rev (dropWhile (\<lambda>c. c \<in> set cs) (rev (dropWhile (\<lambda>c. c \<in> set cs) s)))"

text \<open>The argument of \<^verbatim>\<open>strip\<close> in the source: the double quote and six brackets.\<close>

definition wrap_chars :: "char list" where
  "wrap_chars = CHR 0x22 # ''<>[]()''"

definition extract_email :: "string \<Rightarrow> string option" where
  "extract_email text =
     (case findall email_pattern None text of
        [] \<Rightarrow> None
      | m # _ \<Rightarrow> Some (strip wrap_chars m))"


section \<open>Values, errors and the network\<close>

text \<open>
  The values that travel as JSON (Airtable records, GitHub replies, request payloads), as
  Python sees them after parsing: \<open>JNull\<close> is \<^verbatim>\<open>None\<close>, \<open>JDict\<close> a
  dictionary as the list of its items. Numbers are integers.
\<close>

datatype json =
    JNull
  | JBool bool
  | JInt int
  | JStr string
  | JList "json list"
  | JDict "(string \<times> json) list"

text \<open>The exceptions the modelled code can raise.\<close>

datatype error =
    ConnectionError
  | RetryError
  | JSONDecodeError
  | KeyError
  | TypeError
  | AttributeError
  | IndexError
  | ZeroDivisionError

text \<open>Truth value of a Python object, as \<^verbatim>\<open>if\<close>, \<^verbatim>\<open>and\<close> and \<^verbatim>\<open>or\<close> read it.\<close>

fun truthy :: "json \<Rightarrow> bool" where
  "truthy JNull = False"
| "truthy (JBool b) = b"
| "truthy (JInt n) = (n \<noteq> 0)"
| "truthy (JStr s) = (s \<noteq> [])"
| "truthy (JList xs) = (xs \<noteq> [])"
| "truthy (JDict kvs) = (kvs \<noteq> [])"

text \<open>\<^verbatim>\<open>obj[key]\<close> with a string key: only a dictionary can be indexed so.\<close>

fun subscript :: "json \<Rightarrow> string \<Rightarrow> error + json" where
  "subscript (JDict kvs) k = (case map_of kvs k of None \<Rightarrow> Inl KeyError | Some v \<Rightarrow> Inr v)"
| "subscript _ k = Inl TypeError"

text \<open>\<^verbatim>\<open>obj.get(key, default)\<close>: only a dictionary has the method.\<close>

fun py_get :: "json \<Rightarrow> string \<Rightarrow> json \<Rightarrow> error + json" where
  "py_get (JDict kvs) k d = Inr (case map_of kvs k of None \<Rightarrow> d | Some v \<Rightarrow> v)"
| "py_get _ k d = Inl AttributeError"

text \<open>\<^verbatim>\<open>obj < n\<close> for an integer \<open>n\<close>: numbers and booleans compare, the rest raise.\<close>

fun py_less :: "json \<Rightarrow> int \<Rightarrow> error + bool" where
  "py_less (JInt m) n = Inr (m < n)"
| "py_less (JBool b) n = Inr ((if b then 1 else 0) < n)"
| "py_less _ n = Inl TypeError"

text \<open>\<^verbatim>\<open>s.startswith(prefix)\<close> and \<^verbatim>\<open>s.split(sep)\<close> for a one-character separator.\<close>

definition startswith :: "string \<Rightarrow> string \<Rightarrow> bool" where
  "startswith s pre = (take (length pre) s = pre)"

fun py_split :: "char \<Rightarrow> string \<Rightarrow> string list" where
  "py_split sep [] = [[]]"
| "py_split sep (c # cs) =
     (if c = sep then [] # py_split sep cs
      else (case py_split sep cs of [] \<Rightarrow> [[c]] | p # ps \<Rightarrow> (c # p) # ps))"

datatype http_method = GET | PATCH | POST

record request =
  meth :: http_method
  url :: string
  headers :: "(string \<times> string) list"
  payload :: "json option"

text \<open>
  A response as the code reads it: \<^verbatim>\<open>status_code\<close>, \<^verbatim>\<open>text\<close> and the
  value of \<^verbatim>\<open>json()\<close>, \<open>None\<close> when the body is not JSON (the call then raises).
  The code reads no header; the retry policy of the session does, so a response also
  carries the value of its \<^verbatim>\<open>Retry-After\<close> header, if it has one.
\<close>

record response =
  status_code :: nat
  body_text :: string
  json_body :: "json option"
  retry_after :: "string option"

text \<open>What one attempt on the wire gives: a response, or no connection.\<close>

datatype reply = Reply response | NoConnection

text \<open>
  The outside world: the reply to the \<open>n\<close>-th attempt the program makes, given the request
  sent. The program state carries the handler object, the number of attempts made so far and
  the requests the code has issued, in order.
\<close>

type_synonym world = "nat \<Rightarrow> request \<Rightarrow> reply"

record github_api_handler =
  api_keys :: "string list"
  current_key_index :: nat
  request_count :: nat
  max_requests_per_key :: nat

record state =
  handler :: github_api_handler
  clock :: nat
  sent :: "request list"

definition attempt :: "world \<Rightarrow> request \<Rightarrow> state \<Rightarrow> reply \<times> state" where
  "attempt w rq s = (w (clock s) rq, s\<lparr>clock := Suc (clock s)\<rparr>)"

text \<open>
  \<^verbatim>\<open>requests.get\<close>, \<^verbatim>\<open>requests.patch\<close>, \<^verbatim>\<open>requests.post\<close> called directly:
  one attempt, a connection failure raises.
\<close>

definition requests_call :: "world \<Rightarrow> request \<Rightarrow> state \<Rightarrow> (error + response) \<times> state" where
  "requests_call w rq s =
     (case attempt w rq (s\<lparr>sent := sent s @ [rq]\<rparr>) of
        (NoConnection, s') \<Rightarrow> (Inl ConnectionError, s')
      | (Reply r, s') \<Rightarrow> (Inr r, s'))"

text \<open>
  \<^verbatim>\<open>requests_retry_session\<close> (lines 8-20) mounts a \<^verbatim>\<open>Retry\<close> policy with
  \<^verbatim>\<open>total = read = connect = retries\<close> and the given status list; every other
  setting keeps its default, so the policy raises once the retries are used up
  (\<^verbatim>\<open>raise_on_status\<close>) and honours \<^verbatim>\<open>Retry-After\<close>
  (\<^verbatim>\<open>respect_retry_after_header\<close>). The three counters are equal and each failure
  lowers \<open>total\<close>, so \<open>total\<close> alone decides; the time slept between attempts is not part
  of the model.
\<close>

record retry_policy =
  total :: nat
  status_forcelist :: "nat list"

definition requests_retry_session :: "nat \<Rightarrow> nat list \<Rightarrow> retry_policy" where
  "requests_retry_session retries forcelist =
     \<lparr>total = retries, status_forcelist = forcelist\<rparr>"

text \<open>The session with the defaults of the source, as every call site builds it.\<close>

definition default_session :: retry_policy where
  "default_session = requests_retry_session 3 [500, 502, 504]"

text \<open>
  The statuses that the policy retries when the response asks for it, and the test whether
  it does: the header is there and not empty.
\<close>

definition retry_after_codes :: "nat list" where
  "retry_after_codes = [413, 429, 503]"

definition has_retry_after :: "response \<Rightarrow> bool" where
  "has_retry_after r = (case retry_after r of None \<Rightarrow> False | Some v \<Rightarrow> v \<noteq> [])"

text \<open>
  The policy's decision on a response, with \<open>left\<close> retries left: a status of the list is
  always a failure; a status 413, 429 or 503 with \<^verbatim>\<open>Retry-After\<close> is one while a
  retry is left.
\<close>

definition is_retry :: "nat list \<Rightarrow> nat \<Rightarrow> response \<Rightarrow> bool" where
  "is_retry fl left r =
     (status_code r \<in> set fl \<or>
      (left \<noteq> 0 \<and> has_retry_after r \<and> status_code r \<in> set retry_after_codes))"

text \<open>
  A \<^verbatim>\<open>get\<close> through the session: a failed connection, or a response that the policy
  counts as a failure, is tried again while retries are left; with none left the failure
  is raised. Any other response is returned at once.
\<close>

fun retry_attempts ::
  "world \<Rightarrow> nat list \<Rightarrow> request \<Rightarrow> nat \<Rightarrow> state \<Rightarrow> (error + response) \<times> state" where
  "retry_attempts w fl rq 0 s =
     (case attempt w rq s of
        (NoConnection, s') \<Rightarrow> (Inl ConnectionError, s')
      | (Reply r, s') \<Rightarrow>
          if is_retry fl 0 r then (Inl RetryError, s') else (Inr r, s'))"
| "retry_attempts w fl rq (Suc left) s =
     (case attempt w rq s of
        (NoConnection, s') \<Rightarrow> retry_attempts w fl rq left s'
      | (Reply r, s') \<Rightarrow>
          if is_retry fl (Suc left) r then retry_attempts w fl rq left s' else (Inr r, s'))"

definition session_get ::
  "world \<Rightarrow> retry_policy \<Rightarrow> request \<Rightarrow> state \<Rightarrow> (error + response) \<times> state" where
  "session_get w pol rq s =
     retry_attempts w (status_forcelist pol) rq (total pol) (s\<lparr>sent := sent s @ [rq]\<rparr>)"


section \<open>The key rotator and the GitHub lookup (class \<^verbatim>\<open>GitHubApiHandler\<close>, lines 29-76)\<close>

definition init_handler :: "string list \<Rightarrow> github_api_handler" where
  "init_handler keys =
     \<lparr>api_keys = keys, current_key_index = 0, request_count = 0,
      max_requests_per_key = 3650\<rparr>"

text \<open>Indexing the key list out of range raises.\<close>

definition get_headers :: "state \<Rightarrow> error + (string \<times> string) list" where
  "get_headers s =
     (if current_key_index (handler s) < length (api_keys (handler s))
      then Inr [(''Authorization'',
                 ''token '' @ api_keys (handler s) ! current_key_index (handler s))]
      else Inl IndexError)"

definition rate_limit_request :: "(string \<times> string) list \<Rightarrow> request" where
  "rate_limit_request hs =
     \<lparr>meth = GET, url = ''https://api.github.com/rate_limit'', headers = hs,
      payload = None\<rparr>"

text \<open>Lines 49-53: what \<^verbatim>\<open>get_remaining_requests\<close> makes of the response.\<close>

definition remaining_of :: "response \<Rightarrow> error + json" where
  "remaining_of r =
     (if status_code r = 200 then
        (case json_body r of
           None \<Rightarrow> Inl JSONDecodeError
         | Some rate_limit_data \<Rightarrow>
             (case subscript rate_limit_data ''rate'' of
                Inl e \<Rightarrow> Inl e
              | Inr rate \<Rightarrow> subscript rate ''remaining''))
      else Inr (JInt 0))"

definition get_remaining_requests :: "world \<Rightarrow> state \<Rightarrow> (error + json) \<times> state" where
  "get_remaining_requests w s =
     (case get_headers s of
        Inl e \<Rightarrow> (Inl e, s)
      | Inr hs \<Rightarrow>
          (case session_get w default_session (rate_limit_request hs) s of
             (Inl e, s') \<Rightarrow> (Inl e, s')
           | (Inr r, s') \<Rightarrow> (remaining_of r, s')))"

definition check_and_switch_key :: "world \<Rightarrow> state \<Rightarrow> (error + unit) \<times> state" where
  "check_and_switch_key w s =
     (case get_remaining_requests w s of
        (Inl e, s') \<Rightarrow> (Inl e, s')
      | (Inr remaining_requests, s') \<Rightarrow>
          (case py_less remaining_requests 10 of
             Inl e \<Rightarrow> (Inl e, s')
           | Inr False \<Rightarrow> (Inr (), s')
           | Inr True \<Rightarrow>
               if length (api_keys (handler s')) = 0 then (Inl ZeroDivisionError, s')
               else
                 (Inr (),
                  s'\<lparr>handler := (handler s')
                       \<lparr>current_key_index :=
                          (current_key_index (handler s') + 1)
                            mod length (api_keys (handler s')),
                        request_count := 0\<rparr>\<rparr>)))"

definition readme_request :: "string \<Rightarrow> (string \<times> string) list \<Rightarrow> request" where
  "readme_request username hs =
     \<lparr>meth = GET,
      url = ''https://raw.githubusercontent.com/'' @ username @ ''/'' @ username
              @ ''/main/README.md'',
      headers = hs, payload = None\<rparr>"

definition get_email_from_readme ::
  "world \<Rightarrow> string \<Rightarrow> (string \<times> string) list \<Rightarrow> state \<Rightarrow> (error + string option) \<times> state" where
  "get_email_from_readme w username hs s =
     (case requests_call w (readme_request username hs) s of
        (Inl e, s') \<Rightarrow> (Inl e, s')
      | (Inr r, s') \<Rightarrow>
          if status_code r = 200 then (Inr (extract_email (body_text r)), s')
          else (Inr None, s'))"

text \<open>Lines 59-62: the username of a profile URL is what follows its last slash.\<close>

definition username_of :: "string \<Rightarrow> string" where
  "username_of username_or_url =
     (if startswith username_or_url ''https://github.com/''
      then last (py_split CHR ''/'' username_or_url)
      else username_or_url)"

definition profile_request :: "string \<Rightarrow> (string \<times> string) list \<Rightarrow> request" where
  "profile_request username hs =
     \<lparr>meth = GET, url = ''https://api.github.com/users/'' @ username, headers = hs,
      payload = None\<rparr>"

text \<open>A string or \<^verbatim>\<open>None\<close> as a value.\<close>

definition of_optional :: "string option \<Rightarrow> json" where
  "of_optional x = (case x of None \<Rightarrow> JNull | Some e \<Rightarrow> JStr e)"

text \<open>
  The argument comes from an Airtable field and may be any value; only a string has
  \<^verbatim>\<open>startswith\<close>. The result is the profile's email when it is truthy, else what the
  README gives, else \<^verbatim>\<open>None\<close>.
\<close>

definition get_user_info_from_github_api ::
  "world \<Rightarrow> json \<Rightarrow> state \<Rightarrow> (error + json) \<times> state" where
  "get_user_info_from_github_api w username_or_url s =
     (case check_and_switch_key w s of
        (Inl e, s1) \<Rightarrow> (Inl e, s1)
      | (Inr _, s1) \<Rightarrow>
          (case get_headers s1 of
             Inl e \<Rightarrow> (Inl e, s1)
           | Inr hs \<Rightarrow>
               (let s2 = s1\<lparr>handler := (handler s1)
                            \<lparr>request_count := request_count (handler s1) + 1\<rparr>\<rparr>
                in case username_or_url of
                     JStr u \<Rightarrow>
                       (case session_get w default_session
                               (profile_request (username_of u) hs) s2 of
                          (Inl e, s3) \<Rightarrow> (Inl e, s3)
                        | (Inr r, s3) \<Rightarrow>
                            if status_code r \<noteq> 200 then (Inr JNull, s3)
                            else
                              (case json_body r of
                                 None \<Rightarrow> (Inl JSONDecodeError, s3)
                               | Some user_data \<Rightarrow>
                                   (case py_get user_data ''email'' (JStr []) of
                                      Inl e \<Rightarrow> (Inl e, s3)
                                    | Inr email \<Rightarrow>
                                        if truthy email then (Inr email, s3)
                                        else
                                          (case get_email_from_readme w (username_of u) hs s3 of
                                             (Inl e, s4) \<Rightarrow> (Inl e, s4)
                                           | (Inr found, s4) \<Rightarrow> (Inr (of_optional found), s4)))))
                   | _ \<Rightarrow> (Inl AttributeError, s2))))"

section \<open>The Airtable store and the record processor (lines 78-147)\<close>

definition airtable_url :: "string \<Rightarrow> string \<Rightarrow> string" where
  "airtable_url base_id table_name =
     ''https://api.airtable.com/v0/'' @ base_id @ ''/'' @ table_name"

definition eligible_formula :: string where
  "eligible_formula =
     ''?filterByFormula=AND(NOT({GitHub} = '' @ [CHR 0x22, CHR 0x22] @ ''), {Status} = ''
       @ [CHR 0x22] @ ''Run'' @ [CHR 0x22] @ '')''"

definition list_request :: "string \<Rightarrow> string \<Rightarrow> string \<Rightarrow> request" where
  "list_request api_key base_id table_name =
     \<lparr>meth = GET, url = airtable_url base_id table_name @ eligible_formula,
      headers = [(''Authorization'', ''Bearer '' @ api_key)], payload = None\<rparr>"

definition get_airtable_records ::
  "world \<Rightarrow> string \<Rightarrow> string \<Rightarrow> string \<Rightarrow> state \<Rightarrow> (error + json) \<times> state" where
  "get_airtable_records w api_key base_id table_name s =
     (case requests_call w (list_request api_key base_id table_name) s of
        (Inl e, s') \<Rightarrow> (Inl e, s')
      | (Inr r, s') \<Rightarrow>
          if status_code r \<noteq> 200 then (Inr (JList []), s')
          else
            (case json_body r of
               None \<Rightarrow> (Inl JSONDecodeError, s')
             | Some data \<Rightarrow> (py_get data ''records'' (JList []), s')))"

definition write_request ::
  "http_method \<Rightarrow> string \<Rightarrow> string \<Rightarrow> string \<Rightarrow> json list \<Rightarrow> request" where
  "write_request m api_key base_id table_name records =
     \<lparr>meth = m, url = airtable_url base_id table_name,
      headers = [(''Authorization'', ''Bearer '' @ api_key),
                 (''Content-Type'', ''application/json'')],
      payload = Some (JDict [(''records'', JList records)])\<rparr>"

definition update_airtable_records ::
  "world \<Rightarrow> string \<Rightarrow> string \<Rightarrow> string \<Rightarrow> json list \<Rightarrow> state \<Rightarrow> (error + bool) \<times> state" where
  "update_airtable_records w api_key base_id table_name records s =
     (case requests_call w (write_request PATCH api_key base_id table_name records) s of
        (Inl e, s') \<Rightarrow> (Inl e, s')
      | (Inr r, s') \<Rightarrow> if status_code r \<noteq> 200 then (Inr False, s') else (Inr True, s'))"

definition create_airtable_records ::
  "world \<Rightarrow> string \<Rightarrow> string \<Rightarrow> string \<Rightarrow> json list \<Rightarrow> state \<Rightarrow> (error + bool) \<times> state" where
  "create_airtable_records w api_key base_id table_name records s =
     (case requests_call w (write_request POST api_key base_id table_name records) s of
        (Inl e, s') \<Rightarrow> (Inl e, s')
      | (Inr r, s') \<Rightarrow> if status_code r \<noteq> 200 then (Inr False, s') else (Inr True, s'))"

text \<open>The three records \<^verbatim>\<open>process_record\<close> writes (lines 122-125, 128-135, 138-146).\<close>

definition running_update :: "json \<Rightarrow> json" where
  "running_update rid =
     JDict [(''id'', rid), (''fields'', JDict [(''Status'', JStr ''Running'')])]"

definition done_update :: "json \<Rightarrow> json \<Rightarrow> json" where
  "done_update rid email =
     JDict [(''id'', rid),
            (''fields'',
             JDict [(''Scouted Email'', if truthy email then email else JStr []),
                    (''Status'', JStr ''Done'')])]"

definition new_record :: "json \<Rightarrow> json \<Rightarrow> json \<Rightarrow> json \<Rightarrow> json" where
  "new_record name github_url email repo =
     JDict [(''fields'',
             JDict [(''Name'', name),
                    (''Github'', github_url),
                    (''Scouted Email'', email),
                    (''Repo to link'', repo),
                    (''Check External Hacker Github'', JStr ''Update (Github Repo)'')])]"

text \<open>
  \<^verbatim>\<open>process_record\<close> (lines 116-147); the handler it is given is the one in the
  state. \<open>flds\<close> stands for the local variable \<^verbatim>\<open>fields\<close>.
\<close>

definition process_record ::
  "world \<Rightarrow> json \<Rightarrow> string \<Rightarrow> string \<Rightarrow> string \<Rightarrow> string \<Rightarrow> state \<Rightarrow> (error + unit) \<times> state" where
  "process_record w record airtable_api_key base_id source_table_name target_table_name s =
     (case py_get record ''fields'' (JDict []) of
        Inl e \<Rightarrow> (Inl e, s)
      | Inr flds \<Rightarrow>
     (case py_get flds ''GitHub'' (JStr []) of
        Inl e \<Rightarrow> (Inl e, s)
      | Inr github_url \<Rightarrow>
     (case py_get flds ''Status'' (JStr []) of
        Inl e \<Rightarrow> (Inl e, s)
      | Inr status \<Rightarrow>
     if truthy github_url \<and> status = JStr ''Run'' then
       (case subscript record ''id'' of
          Inl e \<Rightarrow> (Inl e, s)
        | Inr rid \<Rightarrow>
       (case update_airtable_records w airtable_api_key base_id source_table_name
               [running_update rid] s of
          (Inl e, s1) \<Rightarrow> (Inl e, s1)
        | (Inr _, s1) \<Rightarrow>
       (case get_user_info_from_github_api w github_url s1 of
          (Inl e, s2) \<Rightarrow> (Inl e, s2)
        | (Inr email, s2) \<Rightarrow>
       (case subscript record ''id'' of
          Inl e \<Rightarrow> (Inl e, s2)
        | Inr rid2 \<Rightarrow>
       (case update_airtable_records w airtable_api_key base_id source_table_name
               [done_update rid2 email] s2 of
          (Inl e, s3) \<Rightarrow> (Inl e, s3)
        | (Inr _, s3) \<Rightarrow>
       if truthy email then
         (case py_get flds ''Name'' (JStr []) of
            Inl e \<Rightarrow> (Inl e, s3)
          | Inr name \<Rightarrow>
         (case py_get flds ''Repo to Link'' (JStr []) of
            Inl e \<Rightarrow> (Inl e, s3)
          | Inr repo \<Rightarrow>
         (case create_airtable_records w airtable_api_key base_id target_table_name
                 [new_record name github_url email repo] s3 of
            (Inl e, s4) \<Rightarrow> (Inl e, s4)
          | (Inr _, s4) \<Rightarrow> (Inr (), s4))))
       else (Inr (), s3))))))
     else (Inr (), s))))"

section \<open>Notions used to state the properties\<close>

subsection \<open>Matches of a pattern, email shapes\<close>

text \<open>
  \<open>matches its p s m\<close>: the items \<open>its\<close> can match the text \<open>m\<close> at the position
  \<open>(p, s)\<close>, whatever the order in which the engine tries the alternatives.
\<close>

primrec matches :: "item list \<Rightarrow> char option \<Rightarrow> string \<Rightarrow> string \<Rightarrow> bool" where
  "matches [] p s m = (m = [])"
| "matches (it # its) p s m =
     (case it of
        WordBoundary \<Rightarrow> at_boundary p s \<and> matches its p s m
      | Lit c \<Rightarrow> (\<exists>xs m'. s = c # xs \<and> m = c # m' \<and> matches its (Some c) xs m')
      | Rep cls n \<Rightarrow>
          (\<exists>a rest m'. s = a @ rest \<and> n \<le> length a \<and> set a \<subseteq> set cls \<and>
             m = a @ m' \<and> matches its (prev_after p a) rest m'))"

text \<open>The first element of \<open>findall\<close>, if there is one.\<close>

definition first_match :: "item list \<Rightarrow> char option \<Rightarrow> string \<Rightarrow> string option" where
  "first_match its p s = (case findall its p s of [] \<Rightarrow> None | m # _ \<Rightarrow> Some m)"

definition letter_chars :: "char list" where
  "letter_chars = upper_chars @ lower_chars"

text \<open>
  An email shape: a non-empty local part, an at sign, a non-empty domain, a dot and a
  top-level segment of two or more characters of the class \<open>tc\<close>.
\<close>

definition email_shaped :: "char list \<Rightarrow> string \<Rightarrow> bool" where
  "email_shaped tc e =
     (\<exists>l d t. e = l @ CHR ''@'' # d @ CHR ''.'' # t \<and>
        l \<noteq> [] \<and> set l \<subseteq> set local_chars \<and>
        d \<noteq> [] \<and> set d \<subseteq> set domain_chars \<and>
        2 \<le> length t \<and> set t \<subseteq> set tc)"

text \<open>The canonical shape of the specification: the top-level segment is made of letters.\<close>

definition canonical_email :: "string \<Rightarrow> bool" where
  "canonical_email e = email_shaped letter_chars e"

definition contains_canonical :: "string \<Rightarrow> bool" where
  "contains_canonical s = (\<exists>a e b. s = a @ e @ b \<and> canonical_email e)"

text \<open>
  An email shape that occurs in the text at offset \<open>i\<close> with a word boundary before its
  first and after its last character.
\<close>

definition delimited_occurrence :: "char list \<Rightarrow> string \<Rightarrow> nat \<Rightarrow> string \<Rightarrow> bool" where
  "delimited_occurrence tc s i e =
     (\<exists>a b. s = a @ e @ b \<and> length a = i \<and> email_shaped tc e \<and>
        at_boundary (prev_after None a) (e @ b) \<and> at_boundary (Some (last e)) b)"

text \<open>A dot followed by two letters somewhere in the text: every canonical email has one.\<close>

fun has_dot_letters :: "string \<Rightarrow> bool" where
  "has_dot_letters (c # x # y # r) =
     ((c = CHR ''.'' \<and> x \<in> set letter_chars \<and> y \<in> set letter_chars)
      \<or> has_dot_letters (x # y # r))"
| "has_dot_letters _ = False"

subsection \<open>Requests issued, transient failures\<close>

text \<open>The requests the code issued between the states \<open>s\<close> and \<open>s'\<close>.\<close>

definition issued :: "state \<Rightarrow> state \<Rightarrow> request list" where
  "issued s s' = drop (length (sent s)) (sent s')"

text \<open>
  What the retry policy tries again while retries are left: no connection, a response whose
  status is in the list \<open>fl\<close>, or a response with status 413, 429 or 503 that carries
  \<^verbatim>\<open>Retry-After\<close>. A transient failure is one for the policy of the source.
\<close>

definition retriable :: "nat list \<Rightarrow> reply \<Rightarrow> bool" where
  "retriable fl rp =
     (case rp of
        NoConnection \<Rightarrow> True
      | Reply x \<Rightarrow>
          status_code x \<in> set fl \<or> (has_retry_after x \<and> status_code x \<in> set retry_after_codes))"

definition transient :: "reply \<Rightarrow> bool" where
  "transient rp = retriable (status_forcelist default_session) rp"

section \<open>Concrete scenarios\<close>

text \<open>
  Worlds, records and states at which the properties below are evaluated. A world given by
  a table answers a request by the response listed for its URL and with 404 otherwise; a
  flaky world answers the very first attempt with 502 and behaves like the table afterwards.
\<close>

definition ok_response :: "string \<Rightarrow> json option \<Rightarrow> response" where
  "ok_response t j =
     \<lparr>status_code = 200, body_text = t, json_body = j, retry_after = None\<rparr>"

definition not_found :: response where
  "not_found =
     \<lparr>status_code = 404, body_text = [], json_body = None, retry_after = None\<rparr>"

definition bad_gateway :: response where
  "bad_gateway =
     \<lparr>status_code = 502, body_text = [], json_body = None, retry_after = None\<rparr>"

definition url_world :: "(string \<times> response) list \<Rightarrow> world" where
  "url_world tbl n rq = (case map_of tbl (url rq) of None \<Rightarrow> Reply not_found | Some r \<Rightarrow> Reply r)"

definition flaky_world :: "(string \<times> response) list \<Rightarrow> world" where
  "flaky_world tbl n rq = (if n = 0 then Reply bad_gateway else url_world tbl n rq)"

definition rate_limit_body :: "int \<Rightarrow> response" where
  "rate_limit_body n =
     ok_response [] (Some (JDict [(''rate'', JDict [(''remaining'', JInt n)])]))"

definition start_state :: "string list \<Rightarrow> state" where
  "start_state keys = \<lparr>handler = init_handler keys, clock = 0, sent = []\<rparr>"

definition k1_headers :: "(string \<times> string) list" where
  "k1_headers = [(''Authorization'', ''token k1'')]"

definition demo_record :: "string \<Rightarrow> json" where
  "demo_record status =
     JDict [(''id'', JStr ''rec1''),
            (''fields'',
             JDict [(''Name'', JStr ''Octo''), (''GitHub'', JStr ''octocat''),
                    (''Status'', JStr status), (''Repo to Link'', JStr ''repo1'')])]"

definition demo_fields :: "string \<Rightarrow> json" where
  "demo_fields status =
     JDict [(''Name'', JStr ''Octo''), (''GitHub'', JStr ''octocat''),
            (''Status'', JStr status), (''Repo to Link'', JStr ''repo1'')]"

definition demo_world :: world where
  "demo_world =
     url_world
       [(''https://api.github.com/rate_limit'', rate_limit_body 5000),
        (''https://api.github.com/users/octocat'',
         ok_response [] (Some (JDict [(''email'', JStr ''x@y.com'')]))),
        (''https://api.airtable.com/v0/b/src'', ok_response [] None),
        (''https://api.airtable.com/v0/b/tgt'', ok_response [] None)]"

definition readme_world :: world where
  "readme_world =
     url_world
       [(''https://api.github.com/rate_limit'', rate_limit_body 5000),
        (''https://api.github.com/users/octocat'',
         ok_response [] (Some (JDict [(''email'', JNull)]))),
        (''https://raw.githubusercontent.com/octocat/octocat/main/README.md'',
         ok_response ''Contact: <jane@example.com>'' None)]"

definition missing_world :: world where
  "missing_world = url_world [(''https://api.github.com/rate_limit'', rate_limit_body 5000)]"

definition flaky_rate_limit :: world where
  "flaky_rate_limit = flaky_world [(''https://api.github.com/rate_limit'', rate_limit_body 5000)]"

definition flaky_readme :: world where
  "flaky_readme =
     flaky_world
       [(''https://raw.githubusercontent.com/octocat/octocat/main/README.md'',
         ok_response ''Contact: <jane@example.com>'' None)]"

definition demo_s1 :: state where
  "demo_s1 =
     \<lparr>handler = init_handler [''k1''], clock = 1,
      sent = [write_request PATCH ''key'' ''b'' ''src'' [running_update (JStr ''rec1'')]]\<rparr>"

definition demo_s2 :: state where
  "demo_s2 =
     \<lparr>handler = (init_handler [''k1''])\<lparr>request_count := 1\<rparr>, clock = 3,
      sent = [write_request PATCH ''key'' ''b'' ''src'' [running_update (JStr ''rec1'')],
              rate_limit_request [(''Authorization'', ''token k1'')],
              profile_request ''octocat'' [(''Authorization'', ''token k1'')]]\<rparr>"

definition demo_s3 :: state where
  "demo_s3 =
     demo_s2\<lparr>clock := 4,
       sent := sent demo_s2 @
         [write_request PATCH ''key'' ''b'' ''src''
            [done_update (JStr ''rec1'') (JStr ''x@y.com'')]]\<rparr>"

section \<open>The matching engine\<close>

lemma first_success_Some:
  "first_success f ks = Some r \<Longrightarrow> \<exists>k \<in> set ks. f k = Some r"
  by (induction ks) (auto split: option.splits)

lemma first_success_None:
  "first_success f ks = None \<longleftrightarrow> (\<forall>k \<in> set ks. f k = None)"
  by (induction ks) (auto split: option.splits)

lemma set_rep_counts:
  "set (rep_counts cls n s) = {k. n \<le> k \<and> k \<le> length (takeWhile (\<lambda>c. c \<in> set cls) s)}"
  by (auto simp del: upt_Suc simp: rep_counts_def)

lemma take_run:
  assumes "k \<le> length (takeWhile P s)"
  shows "set (take k s) \<subseteq> {c. P c}" and "length (take k s) = k"
proof -
  have "take k (takeWhile P s @ dropWhile P s) = take k (takeWhile P s)"
    using assms by (simp del: takeWhile_dropWhile_id)
  then have t: "take k s = take k (takeWhile P s)" by simp
  have "set (take k (takeWhile P s)) \<subseteq> set (takeWhile P s)" by (rule set_take_subset)
  also have "\<dots> \<subseteq> {c. P c}" by (auto dest: set_takeWhileD)
  finally show "set (take k s) \<subseteq> {c. P c}" using t by simp
  show "length (take k s) = k" using assms t by simp
qed

lemma run_long:
  assumes "set a \<subseteq> {c. P c}"
  shows "length a \<le> length (takeWhile P (a @ rest))"
proof -
  have "takeWhile P (a @ rest) = a @ takeWhile P rest"
    using assms by (simp add: takeWhile_append2 subset_iff)
  then show ?thesis by simp
qed

lemma match_here_sound:
  "match_here its p s = Some m \<Longrightarrow> matches its p s m"
proof (induction its arbitrary: p s m)
  case Nil
  then show ?case by simp
next
  case (Cons it its)
  show ?case
  proof (cases it)
    case WordBoundary
    with Cons show ?thesis by (auto split: if_splits)
  next
    case (Lit c)
    with Cons show ?thesis by (auto split: if_splits list.splits)
  next
    case (Rep cls n)
    with Cons.prems obtain k where k: "k \<in> set (rep_counts cls n s)"
      and r: "map_option ((@) (take k s)) (match_here its (prev_after p (take k s)) (drop k s)) = Some m"
      by (auto dest!: first_success_Some)
    from r obtain m' where m': "match_here its (prev_after p (take k s)) (drop k s) = Some m'"
      and m: "m = take k s @ m'" by auto
    from k have kk: "n \<le> k" "k \<le> length (takeWhile (\<lambda>c. c \<in> set cls) s)"
      by (auto simp: set_rep_counts)
    from take_run [OF kk(2)] kk(1) have "set (take k s) \<subseteq> set cls" "n \<le> length (take k s)"
      by auto
    moreover have "s = take k s @ drop k s" by simp
    moreover note Cons.IH [OF m'] m
    ultimately have "\<exists>a rest m'. s = a @ rest \<and> n \<le> length a \<and> set a \<subseteq> set cls \<and>
             m = a @ m' \<and> matches its (prev_after p a) rest m'"
      by blast
    with Rep show ?thesis by simp
  qed
qed

lemma match_here_complete:
  "matches its p s m \<Longrightarrow> match_here its p s \<noteq> None"
proof (induction its arbitrary: p s m)
  case Nil
  then show ?case by simp
next
  case (Cons it its)
  show ?case
  proof (cases it)
    case WordBoundary
    with Cons show ?thesis by auto
  next
    case (Lit c)
    with Cons show ?thesis by fastforce
  next
    case (Rep cls n)
    with Cons.prems obtain a rest m' where a: "s = a @ rest" "n \<le> length a" "set a \<subseteq> set cls"
      and m0: "matches its (prev_after p a) rest m'"
      by auto
    define k where "k = length a"
    have "set a \<subseteq> {c. c \<in> set cls}" using a(3) by auto
    from run_long [OF this, of rest] a have k: "n \<le> k" "k \<le> length (takeWhile (\<lambda>c. c \<in> set cls) s)"
      by (auto simp: k_def)
    have m': "matches its (prev_after p (take k s)) (drop k s) m'"
      using m0 a by (simp add: k_def)
    from Cons.IH [OF m'] have "match_here its (prev_after p (take k s)) (drop k s) \<noteq> None" .
    moreover from k have "k \<in> set (rep_counts cls n s)"
      by (simp add: set_rep_counts)
    ultimately have "first_success
            (\<lambda>k. map_option ((@) (take k s))
                   (match_here its (prev_after p (take k s)) (drop k s)))
            (rep_counts cls n s) \<noteq> None"
      unfolding first_success_None by (metis map_option_is_None)
    with Rep show ?thesis by simp
  qed
qed

lemma first_match_Nil: "first_match its p [] = match_here its p []"
  by (simp add: first_match_def split: option.splits)

lemma first_match_Cons:
  "first_match its p (x # xs) =
     (case match_here its p (x # xs) of Some m \<Rightarrow> Some m | None \<Rightarrow> first_match its (Some x) xs)"
  by (simp add: first_match_def split: option.splits)

lemma first_match_Some:
  "first_match its p s = Some m \<Longrightarrow>
   \<exists>a b. s = a @ b \<and> match_here its (prev_after p a) b = Some m \<and>
     (\<forall>a' b'. s = a' @ b' \<and> length a' < length a \<longrightarrow> match_here its (prev_after p a') b' = None)"
proof (induction s arbitrary: p)
  case Nil
  then show ?case by (auto simp: first_match_Nil prev_after_def)
next
  case (Cons x xs)
  show ?case
  proof (cases "match_here its p (x # xs)")
    case (Some m0)
    with Cons.prems have "m0 = m" by (simp add: first_match_Cons)
    with Some have "x # xs = [] @ (x # xs) \<and> match_here its (prev_after p []) (x # xs) = Some m"
      by (simp add: prev_after_def)
    then show ?thesis by (metis length_0_conv less_nat_zero_code list.size(3))
  next
    case None
    with Cons.prems have "first_match its (Some x) xs = Some m" by (simp add: first_match_Cons)
    from Cons.IH [OF this] obtain a b where ab: "xs = a @ b"
      "match_here its (prev_after (Some x) a) b = Some m"
      and least: "\<forall>a' b'. xs = a' @ b' \<and> length a' < length a \<longrightarrow> match_here its (prev_after (Some x) a') b' = None"
      by blast
    have pa: "\<And>c. prev_after p (x # c) = prev_after (Some x) c"
      by (simp add: prev_after_def)
    have "\<forall>a' b'. x # xs = a' @ b' \<and> length a' < length (x # a) \<longrightarrow> match_here its (prev_after p a') b' = None"
    proof (intro allI impI)
      fix a' b' assume h: "x # xs = a' @ b' \<and> length a' < length (x # a)"
      show "match_here its (prev_after p a') b' = None"
      proof (cases a')
        case Nil
        with h None show ?thesis by (simp add: prev_after_def)
      next
        case (Cons y c)
        with h have "xs = c @ b'" "length c < length a" "y = x" by auto
        with least Cons pa show ?thesis by auto
      qed
    qed
    moreover have "x # xs = (x # a) @ b" using ab by simp
    moreover have "match_here its (prev_after p (x # a)) b = Some m" using ab pa by simp
    ultimately show ?thesis by blast
  qed
qed

lemma first_match_None:
  "first_match its p s = None \<Longrightarrow> s = a @ b \<Longrightarrow> match_here its (prev_after p a) b = None"
proof (induction s arbitrary: p a)
  case Nil
  then show ?case by (simp add: first_match_Nil prev_after_def)
next
  case (Cons x xs)
  from Cons.prems(1) have n: "match_here its p (x # xs) = None" and r: "first_match its (Some x) xs = None"
    by (auto simp: first_match_Cons split: option.splits)
  show ?case
  proof (cases a)
    case Nil
    with Cons.prems n show ?thesis by (simp add: prev_after_def)
  next
    case (Cons y c)
    with Cons.prems have "xs = c @ b" "y = x" by auto
    moreover have "prev_after p (x # c) = prev_after (Some x) c"
      by (simp add: prev_after_def)
    ultimately show ?thesis using Cons.IH [OF r, of c] Cons by simp
  qed
qed

lemma matches_RepI:
  "set a \<subseteq> set cls \<Longrightarrow> n \<le> length a \<Longrightarrow> matches its (prev_after p a) rest m' \<Longrightarrow>
   matches (Rep cls n # its) p (a @ rest) (a @ m')"
  unfolding matches.simps item.case by blast

lemma matches_LitI:
  "matches its (Some c) rest m' \<Longrightarrow> matches (Lit c # its) p (c # rest) (c # m')"
  by simp

lemma matches_email_pattern:
  "matches email_pattern p s m \<longleftrightarrow>
     email_shaped tld_chars m \<and>
     (\<exists>post. s = m @ post \<and> at_boundary p s \<and> at_boundary (Some (last m)) post)"
  (is "?L \<longleftrightarrow> ?R")
proof
  assume ?L
  then obtain l d t post where
    b1: "at_boundary p s" and s: "s = l @ CHR ''@'' # d @ CHR ''.'' # t @ post"
    and l: "1 \<le> length l" "set l \<subseteq> set local_chars"
    and d: "1 \<le> length d" "set d \<subseteq> set domain_chars"
    and t: "2 \<le> length t" "set t \<subseteq> set tld_chars"
    and b2: "at_boundary (prev_after (Some CHR ''.'') t) post"
    and m: "m = l @ CHR ''@'' # d @ CHR ''.'' # t"
    by (auto simp: email_pattern_def)
  from t have tn: "t \<noteq> []" by auto
  then have "last m = last t" using m by simp
  with b2 tn have "at_boundary (Some (last m)) post" by (simp add: prev_after_def)
  moreover have "email_shaped tld_chars m"
    unfolding email_shaped_def using l d t m by force
  moreover have "s = m @ post" using s m by simp
  ultimately show ?R using b1 by blast
next
  assume ?R
  then obtain l d t post where m: "m = l @ CHR ''@'' # d @ CHR ''.'' # t"
    and l: "l \<noteq> []" "set l \<subseteq> set local_chars"
    and d: "d \<noteq> []" "set d \<subseteq> set domain_chars"
    and t: "2 \<le> length t" "set t \<subseteq> set tld_chars"
    and s: "s = m @ post" and b1: "at_boundary p s" and b2: "at_boundary (Some (last m)) post"
    unfolding email_shaped_def by blast
  from t have tn: "t \<noteq> []" by auto
  then have "last m = last t" using m by simp
  with b2 tn have b3: "at_boundary (prev_after (Some CHR ''.'') t) post" by (simp add: prev_after_def)
  from l d have ll: "1 \<le> length l" and dl: "1 \<le> length d"
    by (simp_all add: Suc_le_eq)
  have m4: "matches [WordBoundary] (prev_after (Some CHR ''.'') t) post []"
    using b3 by simp
  from t(2) t(1) m4
  have m3: "matches [Rep tld_chars 2, WordBoundary] (Some CHR ''.'') (t @ post) (t @ [])"
    by (rule matches_RepI)
  then have m3': "matches [Lit CHR ''.'', Rep tld_chars 2, WordBoundary]
      q (CHR ''.'' # t @ post) (CHR ''.'' # t @ [])" for q
    by (rule matches_LitI)
  from d(2) dl m3'
  have m2: "matches [Rep domain_chars 1, Lit CHR ''.'', Rep tld_chars 2, WordBoundary]
      (Some CHR ''@'') (d @ CHR ''.'' # t @ post) (d @ CHR ''.'' # t @ [])"
    by (rule matches_RepI)
  then have m2': "matches [Lit CHR ''@'', Rep domain_chars 1, Lit CHR ''.'', Rep tld_chars 2, WordBoundary]
      q (CHR ''@'' # d @ CHR ''.'' # t @ post) (CHR ''@'' # d @ CHR ''.'' # t @ [])" for q
    by (rule matches_LitI)
  from l(2) ll m2'
  have m1: "matches [Rep local_chars 1, Lit CHR ''@'', Rep domain_chars 1, Lit CHR ''.'', Rep tld_chars 2, WordBoundary]
      p (l @ CHR ''@'' # d @ CHR ''.'' # t @ post) (l @ CHR ''@'' # d @ CHR ''.'' # t @ [])"
    by (rule matches_RepI)
  have "matches email_pattern p (l @ CHR ''@'' # d @ CHR ''.'' # t @ post) (l @ CHR ''@'' # d @ CHR ''.'' # t @ [])"
    unfolding email_pattern_def matches.simps(2) [of WordBoundary] item.case
    using m1 b1 s m by simp
  then show ?L using s m by simp
qed

lemma extract_email_first_match:
  "extract_email text =
     (case first_match email_pattern None text of
        None \<Rightarrow> None | Some m \<Rightarrow> Some (strip wrap_chars m))"
  by (simp add: extract_email_def first_match_def split: list.splits)

lemma strip_id:
  "s \<noteq> [] \<Longrightarrow> hd s \<notin> set cs \<Longrightarrow> last s \<notin> set cs \<Longrightarrow> strip cs s = s"
proof -
  assume a: "s \<noteq> []" "hd s \<notin> set cs" "last s \<notin> set cs"
  have d1: "dropWhile (\<lambda>c. c \<in> set cs) s = s"
    using a by (simp add: dropWhile_eq_self_iff)
  have d2: "dropWhile (\<lambda>c. c \<in> set cs) (rev s) = rev s"
    using a by (simp add: dropWhile_eq_self_iff hd_rev)
  show ?thesis by (simp add: strip_def d1 d2)
qed

lemma wrap_not_local: "c \<in> set wrap_chars \<Longrightarrow> c \<notin> set local_chars"
  by (auto simp: wrap_chars_def local_chars_def upper_chars_def lower_chars_def digit_chars_def)

lemma wrap_not_tld: "c \<in> set wrap_chars \<Longrightarrow> c \<notin> set tld_chars"
  by (auto simp: wrap_chars_def tld_chars_def upper_chars_def lower_chars_def)

lemma email_shaped_edges:
  assumes "email_shaped tld_chars m"
  shows "m \<noteq> []" "hd m \<notin> set wrap_chars" "last m \<notin> set wrap_chars" "CHR ''@'' \<in> set m"
proof -
  from assms obtain l d t where m: "m = l @ CHR ''@'' # d @ CHR ''.'' # t"
    and l: "l \<noteq> []" "set l \<subseteq> set local_chars"
    and t: "2 \<le> length t" "set t \<subseteq> set tld_chars"
    unfolding email_shaped_def by blast
  from t have tn: "t \<noteq> []" by auto
  show "m \<noteq> []" using m by simp
  show "CHR ''@'' \<in> set m" using m by simp
  have "hd m = hd l" using m l by simp
  moreover have "hd l \<in> set local_chars" using l by auto
  ultimately show "hd m \<notin> set wrap_chars" using wrap_not_local by auto
  have "last m = last t" using m tn by simp
  moreover have "last t \<in> set tld_chars" using t tn by auto
  ultimately show "last m \<notin> set wrap_chars" using wrap_not_tld by auto
qed

lemma match_here_email_iff:
  "(\<exists>m. match_here email_pattern (prev_after None a) s = Some m) \<longleftrightarrow>
   (\<exists>e. delimited_occurrence tld_chars (a @ s) (length a) e)"
proof
  assume "\<exists>m. match_here email_pattern (prev_after None a) s = Some m"
  then obtain m where "match_here email_pattern (prev_after None a) s = Some m" ..
  from match_here_sound [OF this] show "\<exists>e. delimited_occurrence tld_chars (a @ s) (length a) e"
    unfolding matches_email_pattern delimited_occurrence_def by auto
next
  assume "\<exists>e. delimited_occurrence tld_chars (a @ s) (length a) e"
  then obtain e a' b where "a @ s = a' @ e @ b" "length a' = length a" "email_shaped tld_chars e"
     "at_boundary (prev_after None a') (e @ b)" "at_boundary (Some (last e)) b"
    unfolding delimited_occurrence_def by blast
  moreover from this have "a' = a" "s = e @ b" by auto
  ultimately have "matches email_pattern (prev_after None a) s e"
    unfolding matches_email_pattern by auto
  from match_here_complete [OF this]
  show "\<exists>m. match_here email_pattern (prev_after None a) s = Some m" by auto
qed

lemma match_here_email_occurrence:
  assumes "match_here email_pattern (prev_after None a) s = Some m"
  shows "delimited_occurrence tld_chars (a @ s) (length a) m"
  using match_here_sound [OF assms]
  unfolding matches_email_pattern delimited_occurrence_def by auto

lemma extract_email_Some:
  assumes "extract_email text = Some r"
  shows "\<exists>j. delimited_occurrence tld_chars text j r \<and>
           (\<forall>k e. delimited_occurrence tld_chars text k e \<longrightarrow> j \<le> k) \<and>
           first_match email_pattern None text = Some r"
proof -
  from assms obtain m where fm: "first_match email_pattern None text = Some m"
    and r: "r = strip wrap_chars m"
    by (auto simp: extract_email_first_match split: option.splits)
  from first_match_Some [OF fm] obtain a b where ab: "text = a @ b"
    and mh: "match_here email_pattern (prev_after None a) b = Some m"
    and least: "\<forall>a' b'. text = a' @ b' \<and> length a' < length a \<longrightarrow>
         match_here email_pattern (prev_after None a') b' = None"
    by blast
  from match_here_email_occurrence [OF mh] ab
  have occ: "delimited_occurrence tld_chars text (length a) m" by simp
  then have "email_shaped tld_chars m" by (auto simp: delimited_occurrence_def)
  from email_shaped_edges [OF this] have "strip wrap_chars m = m" by (simp add: strip_id)
  with r have rm: "r = m" by simp
  have "length a \<le> k" if "delimited_occurrence tld_chars text k e" for k e
  proof (rule ccontr)
    assume "\<not> length a \<le> k"
    then have lt: "k < length a" by simp
    from that obtain a' b' where t: "text = a' @ e @ b'" and k: "length a' = k"
      by (auto simp: delimited_occurrence_def)
    from that t k have "delimited_occurrence tld_chars (a' @ (e @ b')) (length a') e" by simp
    then have "\<exists>x. delimited_occurrence tld_chars (a' @ (e @ b')) (length a') x" by blast
    with match_here_email_iff [of a' "e @ b'"]
    have "match_here email_pattern (prev_after None a') (e @ b') \<noteq> None" by auto
    with least t k lt show False by auto
  qed
  with occ rm fm show ?thesis by blast
qed

lemma extract_email_None:
  assumes "extract_email text = None"
  shows "\<not> delimited_occurrence tld_chars text k e"
proof
  assume occ: "delimited_occurrence tld_chars text k e"
  from assms have fm: "first_match email_pattern None text = None"
    by (auto simp: extract_email_first_match split: option.splits)
  from occ obtain a b where t: "text = a @ e @ b" and k: "length a = k"
    by (auto simp: delimited_occurrence_def)
  from first_match_None [OF fm t] have "match_here email_pattern (prev_after None a) (e @ b) = None" .
  moreover from occ t k have "delimited_occurrence tld_chars (a @ (e @ b)) (length a) e" by simp
  then have "\<exists>e'. delimited_occurrence tld_chars (a @ (e @ b)) (length a) e'" by blast
  ultimately show False using match_here_email_iff [of a "e @ b"] by auto
qed

lemma email_shaped_mono:
  assumes "email_shaped letter_chars e"
  shows "email_shaped tld_chars e"
proof -
  have "set letter_chars \<subseteq> set tld_chars"
    by (auto simp: letter_chars_def tld_chars_def)
  with assms show ?thesis unfolding email_shaped_def by blast
qed

lemma tld_letters:
  "CHR ''|'' \<notin> set t \<Longrightarrow> set t \<subseteq> set tld_chars \<longleftrightarrow> set t \<subseteq> set letter_chars"
  by (auto simp: tld_chars_def letter_chars_def)

lemma email_shaped_no_bar:
  assumes "CHR ''|'' \<notin> set e"
  shows "email_shaped tld_chars e \<longleftrightarrow> email_shaped letter_chars e"
proof -
  have "set t \<subseteq> set tld_chars \<longleftrightarrow> set t \<subseteq> set letter_chars"
    if "e = l @ CHR ''@'' # d @ CHR ''.'' # t" for l d t
    using assms that by (intro tld_letters) auto
  then show ?thesis unfolding email_shaped_def by metis
qed

text \<open>
  Apart from the bar, the pattern asks for no less than the canonical shape: on a text
  without a bar, a match is a canonical email, so a text without a canonical substring
  gives no match.
\<close>

lemma extract_email_none_without_bar:
  assumes "CHR ''|'' \<notin> set s" and "\<not> contains_canonical s"
  shows "extract_email s = None"
proof (rule ccontr)
  assume "extract_email s \<noteq> None"
  then obtain r where "extract_email s = Some r" by auto
  from extract_email_Some [OF this] obtain j where "delimited_occurrence tld_chars s j r"
    by blast
  then obtain a b where s: "s = a @ r @ b" and sh: "email_shaped tld_chars r"
    unfolding delimited_occurrence_def by blast
  from s assms(1) have "CHR ''|'' \<notin> set r" by auto
  with sh have "canonical_email r"
    by (simp add: canonical_email_def email_shaped_no_bar)
  with s have "contains_canonical s" unfolding contains_canonical_def by blast
  with assms(2) show False by simp
qed

lemma has_dot_letters_append:
  assumes "x \<in> set letter_chars" and "y \<in> set letter_chars"
  shows "has_dot_letters (pre @ CHR ''.'' # x # y # rest)"
proof (induction pre)
  case Nil
  show ?case using assms by simp
next
  case (Cons a pre)
  obtain z w ws where zs: "pre @ CHR ''.'' # x # y # rest = z # w # ws"
    by (cases pre; cases "tl pre") auto
  with Cons have "has_dot_letters (z # w # ws)" by simp
  then have "has_dot_letters (a # z # w # ws)" by simp
  with zs show ?case by simp
qed

lemma contains_canonical_dot_letters:
  assumes "contains_canonical s"
  shows "has_dot_letters s"
proof -
  from assms obtain a b l d t where s: "s = a @ (l @ CHR ''@'' # d @ CHR ''.'' # t) @ b"
    and t: "2 \<le> length t" "set t \<subseteq> set letter_chars"
    unfolding contains_canonical_def canonical_email_def email_shaped_def by blast
  from t(1) obtain x y t' where t': "t = x # y # t'"
    by (cases t; cases "tl t") auto
  with t(2) have xy: "x \<in> set letter_chars" "y \<in> set letter_chars" by auto
  have "s = (a @ l @ CHR ''@'' # d) @ CHR ''.'' # x # y # (t' @ b)"
    using s t' by simp
  then show ?thesis
    using has_dot_letters_append [OF xy, of "a @ l @ CHR ''@'' # d" "t' @ b"] by metis
qed

section \<open>Properties of the email extractor\<close>

lemma jane_extracted: "extract_email ''Contact: <jane@example.com>'' = Some ''jane@example.com''"
  by code_simp

lemma jane_shaped: "email_shaped letter_chars ''jane@example.com''"
proof -
  have "''jane@example.com'' = ''jane'' @ CHR ''@'' # ''example'' @ CHR ''.'' # ''com''" by simp
  moreover have "set ''jane'' \<subseteq> set local_chars" "set ''example'' \<subseteq> set domain_chars"
    "set ''com'' \<subseteq> set letter_chars"
    by (simp_all add: local_chars_def domain_chars_def letter_chars_def lower_chars_def)
  ultimately show ?thesis unfolding email_shaped_def
    by (intro exI [of _ "''jane''"] exI [of _ "''example''"] exI [of _ "''com''"]) simp
qed

lemma jane_occurrence:
  "delimited_occurrence letter_chars ''Contact: <jane@example.com>'' 10 ''jane@example.com''"
proof -
  have "at_boundary (prev_after None ''Contact: <'') (''jane@example.com'' @ ''>'')"
    by (simp add: at_boundary_def prev_after_def is_word_def upper_chars_def lower_chars_def digit_chars_def)
  moreover have "at_boundary (Some (last ''jane@example.com'')) ''>''"
    by (simp add: at_boundary_def is_word_def upper_chars_def lower_chars_def digit_chars_def)
  moreover have "''Contact: <jane@example.com>'' = ''Contact: <'' @ ''jane@example.com'' @ ''>''"
    by simp
  moreover have "length ''Contact: <'' = 10" by simp
  ultimately show ?thesis unfolding delimited_occurrence_def using jane_shaped by blast
qed

text \<open>
  Claim C9. Whenever \<open>extract_email\<close> returns a match, the returned string is not empty
  and contains an at sign. The stripping of quote and bracket characters cannot shorten the
  match: what is returned is the first element of \<open>findall\<close> as it is, so a found email
  is never the empty string that the processor stores when nothing was found.
\<close>

theorem extract_email_nonempty:
  assumes "extract_email s = Some r"
  shows "r \<noteq> [] \<and> CHR ''@'' \<in> set r \<and> (\<exists>ms. findall email_pattern None s = r # ms)"
proof -
  from extract_email_Some [OF assms] obtain j where j: "delimited_occurrence tld_chars s j r"
    and fm: "first_match email_pattern None s = Some r"
    by blast
  from j have "email_shaped tld_chars r" by (auto simp: delimited_occurrence_def)
  from email_shaped_edges [OF this] have "r \<noteq> []" "CHR ''@'' \<in> set r" by auto
  moreover from fm have "\<exists>ms. findall email_pattern None s = r # ms"
    by (auto simp: first_match_def split: list.splits)
  ultimately show ?thesis by simp
qed

theorem extract_email_nonempty_witness:
  "extract_email ''Contact: <jane@example.com>'' = Some ''jane@example.com'' \<and>
   ''jane@example.com'' \<noteq> [] \<and> CHR ''@'' \<in> set ''jane@example.com'' \<and>
   (\<exists>ms. findall email_pattern None ''Contact: <jane@example.com>'' = ''jane@example.com'' # ms)"
  using extract_email_nonempty [OF jane_extracted] jane_extracted by simp

text \<open>
  Claim C6, at the input \<open>a@b.c|d\<close>. The text holds no substring of the canonical shape:
  its only dot is followed by a letter and a bar. The class \<^verbatim>\<open>[A-Z|a-z]\<close> of the
  pattern admits the bar in the top-level segment, and \<open>extract_email\<close> returns the whole
  text as a match.
\<close>

theorem extract_email_bar_in_tld:
  "extract_email ''a@b.c|d'' = Some ''a@b.c|d'' \<and> \<not> contains_canonical ''a@b.c|d''"
proof -
  have "extract_email ''a@b.c|d'' = Some ''a@b.c|d''" by code_simp
  moreover have "\<not> has_dot_letters ''a@b.c|d''"
    by (simp add: letter_chars_def upper_chars_def lower_chars_def)
  then have "\<not> contains_canonical ''a@b.c|d''"
    using contains_canonical_dot_letters by blast
  ultimately show ?thesis by simp
qed

text \<open>
  Claim C7, as amended. Let the text contain, at some offset \<open>i\<close>, a substring of the
  canonical email shape with a word boundary before its first and after its last character.
  Then \<open>extract_email\<close> returns a match \<open>r\<close> that occurs in the text at an offset
  \<open>j \<le> i\<close>, and no delimited canonical substring starts before \<open>j\<close>. The first and
  last characters of \<open>r\<close> are never quote or bracket characters, so the result carries no
  wrapping. Whenever \<open>r\<close> holds no bar character, \<open>r\<close> is itself a delimited substring
  of the canonical shape: the first such occurrence in document order.
\<close>

theorem extract_email_first_occurrence:
  assumes "delimited_occurrence letter_chars s i e"
  shows "\<exists>j r a b. extract_email s = Some r \<and> s = a @ r @ b \<and> length a = j \<and> j \<le> i \<and>
           (\<forall>k e'. delimited_occurrence letter_chars s k e' \<longrightarrow> j \<le> k) \<and>
           r \<noteq> [] \<and> hd r \<notin> set wrap_chars \<and> last r \<notin> set wrap_chars \<and>
           (CHR ''|'' \<notin> set r \<longrightarrow> delimited_occurrence letter_chars s j r)"
proof -
  have up: "delimited_occurrence tld_chars s k e'"
    if "delimited_occurrence letter_chars s k e'" for k e'
    using that email_shaped_mono unfolding delimited_occurrence_def by blast
  from up [OF assms] have occ: "delimited_occurrence tld_chars s i e" .
  obtain r where r: "extract_email s = Some r"
    using extract_email_None [of s i e] occ by (cases "extract_email s") auto
  from extract_email_Some [OF r] obtain j where j: "delimited_occurrence tld_chars s j r"
    and least: "\<forall>k e. delimited_occurrence tld_chars s k e \<longrightarrow> j \<le> k"
    by blast
  from j obtain a b where ab: "s = a @ r @ b" "length a = j"
    and sh: "email_shaped tld_chars r"
    and bd: "at_boundary (prev_after None a) (r @ b)" "at_boundary (Some (last r)) b"
    unfolding delimited_occurrence_def by blast
  from email_shaped_edges [OF sh]
  have edges: "r \<noteq> []" "hd r \<notin> set wrap_chars" "last r \<notin> set wrap_chars" by auto
  have first: "\<forall>k e'. delimited_occurrence letter_chars s k e' \<longrightarrow> j \<le> k"
    using least up by blast
  have "delimited_occurrence letter_chars s j r" if "CHR ''|'' \<notin> set r"
  proof -
    from sh that have "email_shaped letter_chars r" by (simp add: email_shaped_no_bar)
    with ab bd show ?thesis unfolding delimited_occurrence_def by blast
  qed
  with r ab edges first least occ show ?thesis by blast
qed

theorem extract_email_first_occurrence_witness:
  "delimited_occurrence letter_chars ''Contact: <jane@example.com>'' 10 ''jane@example.com'' \<and>
   extract_email ''Contact: <jane@example.com>'' = Some ''jane@example.com'' \<and>
   CHR ''|'' \<notin> set ''jane@example.com'' \<and>
   (\<exists>j\<le>10. delimited_occurrence letter_chars ''Contact: <jane@example.com>'' j
      ''jane@example.com'')"
proof -
  have nb: "CHR ''|'' \<notin> set ''jane@example.com''" by simp
  from extract_email_first_occurrence [OF jane_occurrence] obtain j r where
    "extract_email ''Contact: <jane@example.com>'' = Some r" "j \<le> 10"
    "CHR ''|'' \<notin> set r \<longrightarrow> delimited_occurrence letter_chars ''Contact: <jane@example.com>'' j r"
    by blast
  with jane_extracted nb jane_occurrence show ?thesis by auto
qed

text \<open>
  The claim C7 as stated fails where an email is not delimited by word boundaries: in
  \<open>_jane@example.com_\<close> (an address in Markdown emphasis) the canonical substring
  \<open>jane@example.com\<close> is followed by an underscore, a word character, so the closing
  \<^verbatim>\<open>\b\<close> of the pattern fails and nothing is returned.
\<close>

theorem extract_email_first_occurrence_counterexample:
  "contains_canonical ''_jane@example.com_'' \<and> extract_email ''_jane@example.com_'' = None"
proof -
  have "''_jane@example.com_'' = ''_'' @ ''jane@example.com'' @ ''_''" by simp
  with jane_shaped have "contains_canonical ''_jane@example.com_''"
    unfolding contains_canonical_def canonical_email_def by blast
  moreover have "extract_email ''_jane@example.com_'' = None" by code_simp
  ultimately show ?thesis by simp
qed

section \<open>Effects of the network calls\<close>

lemma issued_append: "sent s' = sent s @ xs \<Longrightarrow> issued s s' = xs"
  by (simp add: issued_def)

lemma requests_call_state:
  assumes "requests_call w rq s = (res, s')"
  shows "s' = s\<lparr>clock := Suc (clock s), sent := sent s @ [rq]\<rparr>"
  using assms by (auto simp: requests_call_def attempt_def split: reply.splits)

lemma single_attempt:
  "requests_call w rq s =
     (case w (clock s) rq of NoConnection \<Rightarrow> Inl ConnectionError | Reply r \<Rightarrow> Inr r,
      s\<lparr>clock := Suc (clock s), sent := sent s @ [rq]\<rparr>)"
  by (simp add: requests_call_def attempt_def split: reply.splits)

lemma retry_attempts_state:
  "retry_attempts w fl rq left s = (res, s') \<Longrightarrow>
   handler s' = handler s \<and> sent s' = sent s \<and> clock s < clock s' \<and>
   clock s' \<le> clock s + Suc left"
proof (induction left arbitrary: s)
  case 0
  then show ?case
    by (auto simp: attempt_def split: reply.splits if_splits)
next
  case (Suc left)
  let ?s1 = "s\<lparr>clock := Suc (clock s)\<rparr>"
  from Suc.prems consider "s' = ?s1" | "retry_attempts w fl rq left ?s1 = (res, s')"
    by (auto simp: attempt_def split: reply.splits if_splits)
  then show ?case
  proof cases
    case 1
    then show ?thesis by simp
  next
    case 2
    from Suc.IH [OF 2] show ?thesis by simp
  qed
qed

lemma session_get_state:
  assumes "session_get w pol rq s = (res, s')"
  shows "handler s' = handler s \<and> sent s' = sent s @ [rq] \<and> clock s < clock s' \<and>
         clock s' \<le> clock s + Suc (total pol)"
proof -
  from assms have "retry_attempts w (status_forcelist pol) rq (total pol) (s\<lparr>sent := sent s @ [rq]\<rparr>) = (res, s')"
    by (simp add: session_get_def)
  from retry_attempts_state [OF this] show ?thesis by simp
qed

lemma is_retry_retriable:
  "retriable fl (Reply x) \<Longrightarrow> is_retry fl (Suc left) x"
  "\<not> retriable fl (Reply x) \<Longrightarrow> \<not> is_retry fl left x"
  by (auto simp: retriable_def is_retry_def)

lemma retry_attempts_recover:
  assumes "k \<le> left"
    and "\<forall>i<k. retriable fl (w (clock s + i) rq)"
    and "w (clock s + k) rq = Reply r" and "\<not> retriable fl (Reply r)"
  shows "retry_attempts w fl rq left s = (Inr r, s\<lparr>clock := clock s + Suc k\<rparr>)"
  using assms
proof (induction left arbitrary: s k)
  case 0
  then show ?case by (simp add: attempt_def is_retry_retriable(2))
next
  case (Suc left)
  show ?case
  proof (cases k)
    case 0
    with Suc.prems show ?thesis by (simp add: attempt_def is_retry_retriable(2))
  next
    case (Suc k')
    let ?s1 = "s\<lparr>clock := Suc (clock s)\<rparr>"
    from Suc.prems(2) Suc have first: "retriable fl (w (clock s) rq)"
      by (metis add.right_neutral zero_less_Suc)
    have "\<forall>i<k'. retriable fl (w (clock ?s1 + i) rq)"
    proof (intro allI impI)
      fix i assume "i < k'"
      then have "Suc i < k" using Suc by simp
      with Suc.prems(2) have "retriable fl (w (clock s + Suc i) rq)" by blast
      then show "retriable fl (w (clock ?s1 + i) rq)" by simp
    qed
    moreover have "k' \<le> left" using Suc.prems(1) Suc by simp
    moreover have "w (clock ?s1 + k') rq = Reply r" using Suc.prems(3) Suc by simp
    ultimately have "retry_attempts w fl rq left ?s1 = (Inr r, ?s1\<lparr>clock := clock ?s1 + Suc k'\<rparr>)"
      using Suc.prems(4) by (intro Suc.IH) auto
    moreover have "retry_attempts w fl rq (Suc left) s = retry_attempts w fl rq left ?s1"
    proof (cases "w (clock s) rq")
      case NoConnection
      then show ?thesis by (simp add: attempt_def)
    next
      case (Reply x)
      with first have "is_retry fl (Suc left) x" by (simp add: is_retry_retriable(1))
      with Reply show ?thesis by (simp add: attempt_def)
    qed
    ultimately show ?thesis using Suc by simp
  qed
qed

lemma session_get_recover:
  assumes "k \<le> 3"
    and "\<forall>i<k. transient (w (clock s + i) rq)"
    and "w (clock s + k) rq = Reply r" and "\<not> transient (Reply r)"
  shows "session_get w default_session rq s =
           (Inr r, s\<lparr>clock := clock s + Suc k, sent := sent s @ [rq]\<rparr>)"
proof -
  let ?s0 = "s\<lparr>sent := sent s @ [rq]\<rparr>"
  let ?fl = "status_forcelist default_session"
  have "retry_attempts w ?fl rq 3 ?s0 = (Inr r, ?s0\<lparr>clock := clock ?s0 + Suc k\<rparr>)"
    using assms by (intro retry_attempts_recover) (auto simp: transient_def)
  moreover have "total default_session = 3"
    by (simp add: default_session_def requests_retry_session_def)
  ultimately show ?thesis by (simp add: session_get_def)
qed

lemma transient_iff:
  "transient (Reply x) \<longleftrightarrow>
     status_code x \<in> {500, 502, 504} \<or>
     (has_retry_after x \<and> status_code x \<in> {413, 429, 503})"
  by (auto simp: transient_def retriable_def default_session_def requests_retry_session_def
      retry_after_codes_def)

lemma get_headers_handler: "handler s' = handler s \<Longrightarrow> get_headers s' = get_headers s"
  by (simp add: get_headers_def)

lemma get_remaining_requests_ok:
  assumes "get_remaining_requests w s = (Inr v, s')"
  shows "\<exists>hs. get_headers s = Inr hs \<and> handler s' = handler s \<and>
           sent s' = sent s @ [rate_limit_request hs]"
proof -
  from assms obtain hs where hs: "get_headers s = Inr hs"
    by (cases "get_headers s") (auto simp: get_remaining_requests_def)
  obtain res1 s1 where sg: "session_get w default_session (rate_limit_request hs) s = (res1, s1)"
    by (cases "session_get w default_session (rate_limit_request hs) s")
  with assms hs have "s' = s1"
    by (auto simp: get_remaining_requests_def split: sum.splits)
  with session_get_state [OF sg] hs show ?thesis by simp
qed

lemma get_remaining_requests_any:
  assumes "get_remaining_requests w s = (res, s')"
  shows "handler s' = handler s \<and> (\<exists>xs. sent s' = sent s @ xs \<and> (\<forall>rq\<in>set xs. meth rq = GET))"
proof (cases "get_headers s")
  case (Inl e)
  with assms show ?thesis by (simp add: get_remaining_requests_def)
next
  case (Inr hs)
  obtain res1 s1 where sg: "session_get w default_session (rate_limit_request hs) s = (res1, s1)"
    by (cases "session_get w default_session (rate_limit_request hs) s")
  with assms Inr have "s' = s1"
    by (auto simp: get_remaining_requests_def split: sum.splits)
  with session_get_state [OF sg] have "handler s' = handler s" "sent s' = sent s @ [rate_limit_request hs]"
    by simp_all
  moreover have "meth (rate_limit_request hs) = GET" by (simp add: rate_limit_request_def)
  ultimately show ?thesis by auto
qed

lemma check_and_switch_key_any:
  assumes "check_and_switch_key w s = (res, s')"
  shows "api_keys (handler s') = api_keys (handler s) \<and>
         (\<exists>xs. sent s' = sent s @ xs \<and> (\<forall>rq\<in>set xs. meth rq = GET))"
proof -
  obtain res1 s1 where g: "get_remaining_requests w s = (res1, s1)"
    by (cases "get_remaining_requests w s")
  from assms g have "sent s' = sent s1 \<and> api_keys (handler s') = api_keys (handler s1)"
    by (auto simp: check_and_switch_key_def split: sum.splits bool.splits if_splits)
  with get_remaining_requests_any [OF g] show ?thesis by simp
qed

lemma check_and_switch_key_ok:
  assumes "check_and_switch_key w s = (Inr u, s')"
  shows "\<exists>hs. get_headers s = Inr hs \<and> sent s' = sent s @ [rate_limit_request hs]"
proof -
  obtain res1 s1 where g: "get_remaining_requests w s = (res1, s1)"
    by (cases "get_remaining_requests w s")
  with assms obtain v where v: "res1 = Inr v"
    by (cases res1) (auto simp: check_and_switch_key_def)
  from assms g have "sent s' = sent s1"
    by (auto simp: check_and_switch_key_def split: sum.splits bool.splits if_splits)
  with get_remaining_requests_ok [OF g [unfolded v]] show ?thesis by auto
qed

lemma get_email_from_readme_state:
  assumes "get_email_from_readme w username hs s = (res, s')"
  shows "s' = s\<lparr>clock := Suc (clock s), sent := sent s @ [readme_request username hs]\<rparr>"
proof -
  obtain res1 s1 where rc: "requests_call w (readme_request username hs) s = (res1, s1)"
    by (cases "requests_call w (readme_request username hs) s")
  with assms have "s' = s1"
    by (auto simp: get_email_from_readme_def split: sum.splits if_splits)
  with requests_call_state [OF rc] show ?thesis by simp
qed

lemma update_airtable_records_state:
  assumes "update_airtable_records w k b t recs s = (res, s')"
  shows "s' = s\<lparr>clock := Suc (clock s), sent := sent s @ [write_request PATCH k b t recs]\<rparr>"
proof -
  obtain res1 s1 where rc: "requests_call w (write_request PATCH k b t recs) s = (res1, s1)"
    by (cases "requests_call w (write_request PATCH k b t recs) s")
  with assms have "s' = s1"
    by (auto simp: update_airtable_records_def split: sum.splits if_splits)
  with requests_call_state [OF rc] show ?thesis by simp
qed

lemma create_airtable_records_state:
  assumes "create_airtable_records w k b t recs s = (res, s')"
  shows "s' = s\<lparr>clock := Suc (clock s), sent := sent s @ [write_request POST k b t recs]\<rparr>"
proof -
  obtain res1 s1 where rc: "requests_call w (write_request POST k b t recs) s = (res1, s1)"
    by (cases "requests_call w (write_request POST k b t recs) s")
  with assms have "s' = s1"
    by (auto simp: create_airtable_records_def split: sum.splits if_splits)
  with requests_call_state [OF rc] show ?thesis by simp
qed

lemma get_user_info_any:
  assumes "get_user_info_from_github_api w x s = (res, s')"
  shows "\<exists>xs. sent s' = sent s @ xs \<and> (\<forall>rq\<in>set xs. meth rq = GET)"
proof -
  obtain r1 s1 where c: "check_and_switch_key w s = (r1, s1)"
    by (cases "check_and_switch_key w s")
  from check_and_switch_key_any [OF c] obtain xs1 where
    x1: "sent s1 = sent s @ xs1" "\<forall>rq\<in>set xs1. meth rq = GET" by blast
  show ?thesis
  proof (cases r1)
    case (Inl e)
    with assms c have "s' = s1" by (simp add: get_user_info_from_github_api_def)
    with x1 show ?thesis by blast
  next
    case (Inr u1)
    show ?thesis
    proof (cases "get_headers s1")
      case (Inl e)
      with assms c Inr have "s' = s1" by (simp add: get_user_info_from_github_api_def)
      with x1 show ?thesis by blast
    next
      case hs: (Inr hs)
      let ?s2 = "s1\<lparr>handler := (handler s1)\<lparr>request_count := request_count (handler s1) + 1\<rparr>\<rparr>"
      have s2: "sent ?s2 = sent s1" by simp
      show ?thesis
      proof (cases "\<exists>u. x = JStr u")
        case False
        with assms c Inr hs have "s' = ?s2"
          by (cases x) (auto simp: get_user_info_from_github_api_def)
        with x1 s2 show ?thesis by auto
      next
        case True
        then obtain u where u: "x = JStr u" ..
        obtain r3 s3 where sg: "session_get w default_session (profile_request (username_of u) hs) ?s2 = (r3, s3)"
          by (cases "session_get w default_session (profile_request (username_of u) hs) ?s2")
        from session_get_state [OF sg] s2 x1
        have s3: "sent s3 = sent s @ xs1 @ [profile_request (username_of u) hs]" by simp
        obtain r4 s4 where rd: "get_email_from_readme w (username_of u) hs s3 = (r4, s4)"
          by (cases "get_email_from_readme w (username_of u) hs s3")
        from get_email_from_readme_state [OF rd] s3
        have s4: "sent s4 = sent s @ xs1 @ [profile_request (username_of u) hs, readme_request (username_of u) hs]"
          by simp
        from assms c Inr hs u sg rd have "s' = s3 \<or> s' = s4"
          by (auto simp: get_user_info_from_github_api_def Let_def
                split: sum.splits option.splits if_splits)
        moreover have "meth (profile_request (username_of u) hs) = GET"
          "meth (readme_request (username_of u) hs) = GET"
          by (simp_all add: profile_request_def readme_request_def)
        ultimately show ?thesis using s3 s4 x1 by auto
      qed
    qed
  qed
qed

lemma get_user_info_profile:
  assumes "check_and_switch_key w s = (Inr (), s1)" and "get_headers s1 = Inr hs"
    and "session_get w default_session (profile_request (username_of u) hs)
           (s1\<lparr>handler := (handler s1)\<lparr>request_count := request_count (handler s1) + 1\<rparr>\<rparr>)
         = (r3, s3)"
  shows "get_user_info_from_github_api w (JStr u) s =
     (case r3 of
        Inl e \<Rightarrow> (Inl e, s3)
      | Inr r \<Rightarrow>
          if status_code r \<noteq> 200 then (Inr JNull, s3)
          else
            (case json_body r of
               None \<Rightarrow> (Inl JSONDecodeError, s3)
             | Some user_data \<Rightarrow>
                 (case py_get user_data ''email'' (JStr []) of
                    Inl e \<Rightarrow> (Inl e, s3)
                  | Inr email \<Rightarrow>
                      if truthy email then (Inr email, s3)
                      else
                        (case get_email_from_readme w (username_of u) hs s3 of
                           (Inl e, s4) \<Rightarrow> (Inl e, s4)
                         | (Inr found, s4) \<Rightarrow> (Inr (of_optional found), s4)))))"
  using assms by (simp add: get_user_info_from_github_api_def split: sum.splits)

section \<open>The scenarios evaluated\<close>

lemma start_headers: "get_headers (start_state [''k1'']) = Inr k1_headers"
  by (simp add: get_headers_def start_state_def init_handler_def k1_headers_def)

lemma url_world_session:
  assumes "map_of tbl (url rq) = Some r" and "status_code r \<notin> {500, 502, 504}"
    and "retry_after r = None"
  shows "session_get (url_world tbl) default_session rq s =
           (Inr r, s\<lparr>clock := Suc (clock s), sent := sent s @ [rq]\<rparr>)"
proof -
  have "\<forall>i<0. transient (url_world tbl (clock s + i) rq)" by simp
  moreover have "url_world tbl (clock s + 0) rq = Reply r" using assms(1) by (simp add: url_world_def)
  moreover have "\<not> transient (Reply r)"
    using assms(2,3) by (simp add: transient_iff has_retry_after_def)
  ultimately have "session_get (url_world tbl) default_session rq s =
           (Inr r, s\<lparr>clock := clock s + Suc 0, sent := sent s @ [rq]\<rparr>)"
    by (intro session_get_recover) simp
  then show ?thesis by simp
qed

lemma url_world_check:
  assumes "map_of tbl ''https://api.github.com/rate_limit'' = Some (rate_limit_body n)"
    and "10 \<le> n" and "get_headers s = Inr hs"
  shows "check_and_switch_key (url_world tbl) s =
           (Inr (), s\<lparr>clock := Suc (clock s), sent := sent s @ [rate_limit_request hs]\<rparr>)"
proof -
  have "map_of tbl (url (rate_limit_request hs)) = Some (rate_limit_body n)"
    using assms(1) by (simp add: rate_limit_request_def)
  moreover have "status_code (rate_limit_body n) \<notin> {500, 502, 504}"
    by (simp add: rate_limit_body_def ok_response_def)
  moreover have "retry_after (rate_limit_body n) = None"
    by (simp add: rate_limit_body_def ok_response_def)
  ultimately have "session_get (url_world tbl) default_session (rate_limit_request hs) s =
      (Inr (rate_limit_body n), s\<lparr>clock := Suc (clock s), sent := sent s @ [rate_limit_request hs]\<rparr>)"
    by (rule url_world_session)
  moreover have "remaining_of (rate_limit_body n) = Inr (JInt n)"
    by (simp add: remaining_of_def rate_limit_body_def ok_response_def)
  ultimately show ?thesis using assms(2,3)
    by (simp add: check_and_switch_key_def get_remaining_requests_def)
qed

lemma start_check:
  assumes "map_of tbl ''https://api.github.com/rate_limit'' = Some (rate_limit_body 5000)"
  shows "check_and_switch_key (url_world tbl) (start_state [''k1'']) =
           (Inr (), (start_state [''k1''])
              \<lparr>clock := Suc (clock (start_state [''k1''])),
               sent := sent (start_state [''k1'']) @ [rate_limit_request k1_headers]\<rparr>)"
  using assms by (rule url_world_check) (simp_all add: start_headers)

lemma after_check_headers:
  "get_headers ((start_state [''k1''])
              \<lparr>clock := Suc (clock (start_state [''k1''])),
               sent := sent (start_state [''k1'']) @ [rate_limit_request k1_headers]\<rparr>)
   = Inr k1_headers"
  by (simp add: get_headers_handler [of _ "start_state [''k1'']"] start_headers)

lemma username_examples:
  "username_of ''octocat'' = ''octocat''"
  "username_of ''https://github.com/octocat'' = ''octocat''"
  by (simp_all add: username_of_def startswith_def)

lemma transient_bad_gateway: "transient (Reply bad_gateway)"
  by (simp add: transient_iff bad_gateway_def)

lemma demo_record_fields:
  "py_get (demo_record st) ''fields'' (JDict []) = Inr (demo_fields st)"
  "py_get (demo_fields st) ''GitHub'' (JStr []) = Inr (JStr ''octocat'')"
  "py_get (demo_fields st) ''Status'' (JStr []) = Inr (JStr st)"
  "subscript (demo_record st) ''id'' = Inr (JStr ''rec1'')"
  by (simp_all add: demo_record_def demo_fields_def)

lemma demo_update1:
  "update_airtable_records demo_world ''key'' ''b'' ''src'' [running_update (JStr ''rec1'')]
     (start_state [''k1'']) = (Inr True, demo_s1)"
  by (simp add: update_airtable_records_def requests_call_def attempt_def demo_world_def
      url_world_def write_request_def airtable_url_def ok_response_def start_state_def
      demo_s1_def)

lemma demo_username: "username_of ''octocat'' = ''octocat''"
  by (simp add: username_of_def startswith_def)

lemma demo_check: "check_and_switch_key demo_world demo_s1 =
    (Inr (), demo_s1\<lparr>clock := 2, sent := sent demo_s1 @ [rate_limit_request [(''Authorization'', ''token k1'')]]\<rparr>)"
  by (simp add: check_and_switch_key_def get_remaining_requests_def get_headers_def
      demo_s1_def init_handler_def session_get_def default_session_def
      requests_retry_session_def numeral_3_eq_3 is_retry_def
      has_retry_after_def retry_after_codes_def attempt_def demo_world_def url_world_def
      rate_limit_request_def rate_limit_body_def ok_response_def remaining_of_def)

lemma demo_lookup:
  "get_user_info_from_github_api demo_world (JStr ''octocat'') demo_s1 =
     (Inr (JStr ''x@y.com''), demo_s2)"
  unfolding get_user_info_from_github_api_def demo_check
  by (simp add: demo_username get_headers_def
      demo_s1_def demo_s2_def init_handler_def session_get_def default_session_def
      requests_retry_session_def numeral_3_eq_3 is_retry_def
      has_retry_after_def retry_after_codes_def attempt_def demo_world_def url_world_def
      profile_request_def ok_response_def)

lemma demo_update2:
  "update_airtable_records demo_world ''key'' ''b'' ''src''
     [done_update (JStr ''rec1'') (JStr ''x@y.com'')] demo_s2 = (Inr True, demo_s3)"
  by (simp add: update_airtable_records_def requests_call_def attempt_def demo_world_def
      url_world_def write_request_def airtable_url_def ok_response_def demo_s3_def demo_s2_def)

lemma demo_remaining:
  "get_remaining_requests (url_world [(''https://api.github.com/rate_limit'', rate_limit_body 3)])
     (start_state [''k1'', ''k2'']) =
   (Inr (JInt 3),
    \<lparr>handler = init_handler [''k1'', ''k2''], clock = 1,
     sent = [rate_limit_request [(''Authorization'', ''token k1'')]]\<rparr>)"
  by (simp add: get_remaining_requests_def get_headers_def start_state_def init_handler_def
      session_get_def default_session_def requests_retry_session_def numeral_3_eq_3 is_retry_def
      has_retry_after_def retry_after_codes_def
      attempt_def url_world_def rate_limit_request_def rate_limit_body_def ok_response_def
      remaining_of_def)

section \<open>The key rotator\<close>

lemma succ_mod_neq:
  assumes "i < n" and "2 \<le> (n::nat)"
  shows "(i + 1) mod n \<noteq> i"
proof (cases "i + 1 < n")
  case True
  then show ?thesis by simp
next
  case False
  with assms have "i + 1 = n" by simp
  then have "(i + 1) mod n = 0" by simp
  moreover from \<open>i + 1 = n\<close> assms have "i \<noteq> 0" by simp
  ultimately show ?thesis by simp
qed

text \<open>
  Claim C4. Let the handler hold at least two keys. If the rate-limit query made by
  \<open>check_and_switch_key\<close> returns a value below 10, the call ends normally, the active
  index has moved to the next position modulo the number of keys (which is a different
  position), the per-key request counter is 0 and the key list is unchanged.
\<close>

theorem check_and_switch_key_rotates:
  assumes "2 \<le> length (api_keys (handler s))"
    and "get_remaining_requests w s = (Inr remaining, s1)"
    and "py_less remaining 10 = Inr True"
  shows "\<exists>s2. check_and_switch_key w s = (Inr (), s2) \<and>
           current_key_index (handler s2) =
             (current_key_index (handler s) + 1) mod length (api_keys (handler s)) \<and>
           current_key_index (handler s2) \<noteq> current_key_index (handler s) \<and>
           request_count (handler s2) = 0 \<and>
           api_keys (handler s2) = api_keys (handler s)"
proof -
  from get_remaining_requests_ok [OF assms(2)] obtain hs where
    hs: "get_headers s = Inr hs" and h: "handler s1 = handler s" by blast
  from hs have lt: "current_key_index (handler s) < length (api_keys (handler s))"
    by (auto simp: get_headers_def split: if_splits)
  let ?s2 = "s1\<lparr>handler := (handler s1)
                       \<lparr>current_key_index :=
                          (current_key_index (handler s1) + 1)
                            mod length (api_keys (handler s1)),
                        request_count := 0\<rparr>\<rparr>"
  from assms h have "check_and_switch_key w s = (Inr (), ?s2)"
    by (auto simp: check_and_switch_key_def)
  moreover have "(current_key_index (handler s) + 1) mod length (api_keys (handler s))
      \<noteq> current_key_index (handler s)"
    using lt assms(1) by (rule succ_mod_neq)
  ultimately show ?thesis using h by simp
qed

theorem check_and_switch_key_rotates_witness:
  "2 \<le> length (api_keys (handler (start_state [''k1'', ''k2'']))) \<and>
   fst (get_remaining_requests
      (url_world [(''https://api.github.com/rate_limit'', rate_limit_body 3)])
      (start_state [''k1'', ''k2''])) = Inr (JInt 3) \<and>
   py_less (JInt 3) 10 = Inr True \<and>
   current_key_index (handler (snd (check_and_switch_key
      (url_world [(''https://api.github.com/rate_limit'', rate_limit_body 3)])
      (start_state [''k1'', ''k2''])))) = 1"
proof -
  have a: "2 \<le> length (api_keys (handler (start_state [''k1'', ''k2''])))"
    by (simp add: start_state_def init_handler_def)
  have b: "py_less (JInt 3) 10 = Inr True" by simp
  from check_and_switch_key_rotates [OF a demo_remaining b] a b demo_remaining show ?thesis
    by (auto simp: start_state_def init_handler_def)
qed

section \<open>The GitHub lookup\<close>

lemma py_split_nonempty: "py_split c xs \<noteq> []"
  by (induction xs) (auto split: list.splits)

lemma py_split_snoc: "py_split c (xs @ [c]) = py_split c xs @ [[]]"
proof (induction xs)
  case Nil
  show ?case by simp
next
  case (Cons x xs)
  obtain p ps where "py_split c xs = p # ps"
    using py_split_nonempty [of c xs] by (cases "py_split c xs") auto
  with Cons show ?case by simp
qed

lemma username_of_trailing_slash:
  assumes "startswith u ''https://github.com/''" and "u \<noteq> []" and "last u = CHR ''/''"
  shows "username_of u = []"
proof -
  from assms(2,3) have "u = butlast u @ [CHR ''/'']"
    by (metis append_butlast_last_id)
  then have "py_split CHR ''/'' u = py_split CHR ''/'' (butlast u) @ [[]]"
    using py_split_snoc [of "CHR ''/''" "butlast u"] by simp
  then have "last (py_split CHR ''/'' u) = []" by simp
  with assms(1) show ?thesis by (simp add: username_of_def)
qed

text \<open>
  Claim C5. Let the key check end normally and the profile fetch return a response \<open>r\<close>.
  Up to then the lookup has issued the rate-limit request and the profile request and
  nothing else. If the status of \<open>r\<close> is not 200, the lookup returns \<^verbatim>\<open>None\<close> in
  that state: no README request is issued. If the status is 200 and the email field is
  populated, the lookup returns that email in that state: again no README request. If the
  status is 200 and the email field is not populated, exactly one further request is
  issued, for \<^verbatim>\<open>README.md\<close> on branch \<^verbatim>\<open>main\<close> of the repository named
  after the user under the user's name; a non-200 answer gives \<^verbatim>\<open>None\<close>, a 200
  answer gives what \<open>extract_email\<close> finds in its text.
\<close>

theorem two_tier_lookup:
  assumes "check_and_switch_key w s = (Inr (), s1)" and "get_headers s1 = Inr hs"
    and "session_get w default_session (profile_request (username_of u) hs)
           (s1\<lparr>handler := (handler s1)\<lparr>request_count := request_count (handler s1) + 1\<rparr>\<rparr>)
         = (Inr r, s3)"
  shows "(\<exists>hs0. issued s s3 = [rate_limit_request hs0, profile_request (username_of u) hs]) \<and>
         (status_code r \<noteq> 200 \<longrightarrow>
            get_user_info_from_github_api w (JStr u) s = (Inr JNull, s3)) \<and>
         (\<forall>user_data email.
            status_code r = 200 \<and> json_body r = Some user_data \<and>
            py_get user_data ''email'' (JStr []) = Inr email \<and> truthy email \<longrightarrow>
            get_user_info_from_github_api w (JStr u) s = (Inr email, s3)) \<and>
         (\<forall>user_data email.
            status_code r = 200 \<and> json_body r = Some user_data \<and>
            py_get user_data ''email'' (JStr []) = Inr email \<and> \<not> truthy email \<longrightarrow>
            (\<exists>rr s4.
               requests_call w (readme_request (username_of u) hs) s3 = (rr, s4) \<and>
               issued s3 s4 = [readme_request (username_of u) hs] \<and>
               get_user_info_from_github_api w (JStr u) s =
                 (case rr of
                    Inl e \<Rightarrow> Inl e
                  | Inr x \<Rightarrow>
                      Inr (if status_code x = 200 then of_optional (extract_email (body_text x))
                           else JNull),
                  s4))) \<and>
         url (readme_request (username_of u) hs) =
           ''https://raw.githubusercontent.com/'' @ username_of u @ ''/'' @ username_of u
             @ ''/main/README.md''"
proof -
  note gi = get_user_info_profile [OF assms]
  from check_and_switch_key_ok [OF assms(1)] obtain hs0 where
    e1: "sent s1 = sent s @ [rate_limit_request hs0]" by blast
  from session_get_state [OF assms(3)] e1
  have "sent s3 = sent s @ [rate_limit_request hs0, profile_request (username_of u) hs]" by simp
  then have a: "issued s s3 = [rate_limit_request hs0, profile_request (username_of u) hs]"
    by (rule issued_append)
  have b: "status_code r \<noteq> 200 \<longrightarrow> get_user_info_from_github_api w (JStr u) s = (Inr JNull, s3)"
    by (simp add: gi)
  have c: "get_user_info_from_github_api w (JStr u) s = (Inr email, s3)"
    if "status_code r = 200" "json_body r = Some user_data"
      "py_get user_data ''email'' (JStr []) = Inr email" "truthy email" for user_data email
    using that by (simp add: gi)
  have d: "\<exists>rr s4.
               requests_call w (readme_request (username_of u) hs) s3 = (rr, s4) \<and>
               issued s3 s4 = [readme_request (username_of u) hs] \<and>
               get_user_info_from_github_api w (JStr u) s =
                 (case rr of
                    Inl e \<Rightarrow> Inl e
                  | Inr x \<Rightarrow>
                      Inr (if status_code x = 200 then of_optional (extract_email (body_text x))
                           else JNull),
                  s4)"
    if h: "status_code r = 200" "json_body r = Some user_data"
      "py_get user_data ''email'' (JStr []) = Inr email" "\<not> truthy email" for user_data email
  proof -
    obtain rr s4 where rc: "requests_call w (readme_request (username_of u) hs) s3 = (rr, s4)"
      by (cases "requests_call w (readme_request (username_of u) hs) s3")
    from requests_call_state [OF rc] have "sent s4 = sent s3 @ [readme_request (username_of u) hs]"
      by simp
    then have "issued s3 s4 = [readme_request (username_of u) hs]" by (rule issued_append)
    moreover have "get_user_info_from_github_api w (JStr u) s =
                 (case rr of
                    Inl e \<Rightarrow> Inl e
                  | Inr x \<Rightarrow>
                      Inr (if status_code x = 200 then of_optional (extract_email (body_text x))
                           else JNull),
                  s4)"
      using h rc by (simp add: gi get_email_from_readme_def of_optional_def split: sum.splits)
    ultimately show ?thesis using rc by blast
  qed
  have e: "url (readme_request (username_of u) hs) =
           ''https://raw.githubusercontent.com/'' @ username_of u @ ''/'' @ username_of u
             @ ''/main/README.md''"
    by (simp add: readme_request_def)
  from a b c d e show ?thesis by blast
qed

theorem two_tier_lookup_witness:
  "fst (get_user_info_from_github_api demo_world (JStr ''octocat'') (start_state [''k1'']))
     = Inr (JStr ''x@y.com'') \<and>
   fst (get_user_info_from_github_api missing_world (JStr ''octocat'') (start_state [''k1'']))
     = Inr JNull \<and>
   fst (get_user_info_from_github_api readme_world (JStr ''https://github.com/octocat'')
          (start_state [''k1'']))
     = Inr (JStr ''jane@example.com'')"
proof -
  let ?s1 = "(start_state [''k1''])
              \<lparr>clock := Suc (clock (start_state [''k1''])),
               sent := sent (start_state [''k1'']) @ [rate_limit_request k1_headers]\<rparr>"
  let ?s2 = "?s1\<lparr>handler := (handler ?s1)\<lparr>request_count := request_count (handler ?s1) + 1\<rparr>\<rparr>"
  let ?rq = "profile_request ''octocat'' k1_headers"
  let ?s3 = "?s2\<lparr>clock := Suc (clock ?s2), sent := sent ?s2 @ [?rq]\<rparr>"
  have c1: "check_and_switch_key demo_world (start_state [''k1'']) = (Inr (), ?s1)"
    unfolding demo_world_def by (rule start_check) simp
  have g1: "session_get demo_world default_session
      (profile_request (username_of ''octocat'') k1_headers) ?s2 =
      (Inr (ok_response [] (Some (JDict [(''email'', JStr ''x@y.com'')]))), ?s3)"
    unfolding demo_world_def username_examples
    by (rule url_world_session) (simp_all add: profile_request_def ok_response_def)
  from two_tier_lookup [OF c1 after_check_headers g1]
  have "\<forall>user_data email.
      status_code (ok_response [] (Some (JDict [(''email'', JStr ''x@y.com'')]))) = 200 \<and>
      json_body (ok_response [] (Some (JDict [(''email'', JStr ''x@y.com'')]))) = Some user_data \<and>
      py_get user_data ''email'' (JStr []) = Inr email \<and> truthy email \<longrightarrow>
      get_user_info_from_github_api demo_world (JStr ''octocat'') (start_state [''k1'']) = (Inr email, ?s3)"
    by blast
  from this [rule_format, of "JDict [(''email'', JStr ''x@y.com'')]" "JStr ''x@y.com''"]
  have r1: "fst (get_user_info_from_github_api demo_world (JStr ''octocat'') (start_state [''k1'']))
     = Inr (JStr ''x@y.com'')"
    by (simp add: ok_response_def)
  have c2: "check_and_switch_key missing_world (start_state [''k1'']) = (Inr (), ?s1)"
    unfolding missing_world_def by (rule start_check) simp
  have "session_get missing_world default_session ?rq ?s2 =
      (Inr not_found, ?s2\<lparr>clock := clock ?s2 + Suc 0, sent := sent ?s2 @ [?rq]\<rparr>)"
    by (rule session_get_recover)
      (simp_all add: missing_world_def url_world_def profile_request_def transient_iff
        not_found_def has_retry_after_def)
  then have g2: "session_get missing_world default_session
      (profile_request (username_of ''octocat'') k1_headers) ?s2 = (Inr not_found, ?s3)"
    by (simp add: username_examples)
  from two_tier_lookup [OF c2 after_check_headers g2]
  have "status_code not_found \<noteq> 200 \<longrightarrow>
      get_user_info_from_github_api missing_world (JStr ''octocat'') (start_state [''k1'']) = (Inr JNull, ?s3)"
    by blast
  then have r2: "fst (get_user_info_from_github_api missing_world (JStr ''octocat'') (start_state [''k1'']))
     = Inr JNull"
    by (simp add: not_found_def)
  have c3: "check_and_switch_key readme_world (start_state [''k1'']) = (Inr (), ?s1)"
    unfolding readme_world_def by (rule start_check) simp
  have g3: "session_get readme_world default_session
      (profile_request (username_of ''https://github.com/octocat'') k1_headers) ?s2 =
      (Inr (ok_response [] (Some (JDict [(''email'', JNull)]))), ?s3)"
    unfolding readme_world_def username_examples
    by (rule url_world_session) (simp_all add: profile_request_def ok_response_def)
  from two_tier_lookup [OF c3 after_check_headers g3]
  have "\<forall>user_data email.
      status_code (ok_response [] (Some (JDict [(''email'', JNull)]))) = 200 \<and>
      json_body (ok_response [] (Some (JDict [(''email'', JNull)]))) = Some user_data \<and>
      py_get user_data ''email'' (JStr []) = Inr email \<and> \<not> truthy email \<longrightarrow>
      (\<exists>rr s4.
         requests_call readme_world
           (readme_request (username_of ''https://github.com/octocat'') k1_headers) ?s3 = (rr, s4) \<and>
         issued ?s3 s4 = [readme_request (username_of ''https://github.com/octocat'') k1_headers] \<and>
         get_user_info_from_github_api readme_world (JStr ''https://github.com/octocat'')
             (start_state [''k1'']) =
           (case rr of
              Inl e \<Rightarrow> Inl e
            | Inr x \<Rightarrow>
                Inr (if status_code x = 200 then of_optional (extract_email (body_text x))
                     else JNull),
            s4))"
    by blast
  from this [rule_format, of "JDict [(''email'', JNull)]" JNull]
  obtain rr s4 where
    rc: "requests_call readme_world
           (readme_request (username_of ''https://github.com/octocat'') k1_headers) ?s3 = (rr, s4)"
    and res: "get_user_info_from_github_api readme_world (JStr ''https://github.com/octocat'')
             (start_state [''k1'']) =
           (case rr of
              Inl e \<Rightarrow> Inl e
            | Inr x \<Rightarrow>
                Inr (if status_code x = 200 then of_optional (extract_email (body_text x))
                     else JNull),
            s4)"
    by (auto simp: ok_response_def)
  from rc have "rr = Inr (ok_response ''Contact: <jane@example.com>'' None)"
    by (simp add: single_attempt username_examples readme_world_def url_world_def
        readme_request_def)
  with res have r3: "fst (get_user_info_from_github_api readme_world (JStr ''https://github.com/octocat'')
          (start_state [''k1'']))
     = Inr (JStr ''jane@example.com'')"
    by (simp add: ok_response_def jane_extracted of_optional_def)
  from r1 r2 r3 show ?thesis by simp
qed

text \<open>
  Claim C10. Once the key check has ended normally, the first request of the lookup is the
  profile request for \<open>username_of u\<close>, whose URL is the users endpoint followed by that
  name. For an identifier that does not start with \<^verbatim>\<open>https://github.com/\<close> the
  name is the identifier itself; for one that starts with it and ends in a slash the name
  is the empty string.
\<close>

theorem username_verbatim:
  assumes "check_and_switch_key w s = (Inr (), s1)" and "get_headers s1 = Inr hs"
  shows "\<exists>res s' more.
           get_user_info_from_github_api w (JStr u) s = (res, s') \<and>
           issued s1 s' = profile_request (username_of u) hs # more \<and>
           url (profile_request (username_of u) hs) =
             ''https://api.github.com/users/'' @ username_of u \<and>
           (\<not> startswith u ''https://github.com/'' \<longrightarrow> username_of u = u) \<and>
           (startswith u ''https://github.com/'' \<and> u \<noteq> [] \<and> last u = CHR ''/'' \<longrightarrow>
              username_of u = [])"
proof -
  let ?s2 = "s1\<lparr>handler := (handler s1)\<lparr>request_count := request_count (handler s1) + 1\<rparr>\<rparr>"
  obtain r3 s3 where sg: "session_get w default_session (profile_request (username_of u) hs) ?s2
         = (r3, s3)"
    by (cases "session_get w default_session (profile_request (username_of u) hs) ?s2")
  note gi = get_user_info_profile [OF assms sg]
  obtain res s' where g: "get_user_info_from_github_api w (JStr u) s = (res, s')"
    by (cases "get_user_info_from_github_api w (JStr u) s")
  obtain r4 s4 where rd: "get_email_from_readme w (username_of u) hs s3 = (r4, s4)"
    by (cases "get_email_from_readme w (username_of u) hs s3")
  from session_get_state [OF sg] have e3: "sent s3 = sent s1 @ [profile_request (username_of u) hs]"
    by simp
  from get_email_from_readme_state [OF rd] e3
  have e4: "sent s4 = sent s1 @ [profile_request (username_of u) hs, readme_request (username_of u) hs]"
    by simp
  from g rd have "s' = s3 \<or> s' = s4"
    unfolding gi by (auto split: sum.splits option.splits if_splits)
  then have "\<exists>more. sent s' = sent s1 @ (profile_request (username_of u) hs # more)"
    using e3 e4 by auto
  then obtain more where "sent s' = sent s1 @ (profile_request (username_of u) hs # more)" ..
  then have "issued s1 s' = profile_request (username_of u) hs # more" by (rule issued_append)
  moreover have "url (profile_request (username_of u) hs) =
             ''https://api.github.com/users/'' @ username_of u"
    by (simp add: profile_request_def)
  moreover have "\<not> startswith u ''https://github.com/'' \<longrightarrow> username_of u = u"
    by (simp add: username_of_def)
  moreover have "startswith u ''https://github.com/'' \<and> u \<noteq> [] \<and> last u = CHR ''/'' \<longrightarrow>
              username_of u = []"
    using username_of_trailing_slash by blast
  ultimately show ?thesis using g by blast
qed

theorem username_verbatim_witness:
  "\<not> startswith ''http://github.com/octocat'' ''https://github.com/'' \<and>
   username_of ''http://github.com/octocat'' = ''http://github.com/octocat'' \<and>
   startswith ''https://github.com/octocat/'' ''https://github.com/'' \<and>
   username_of ''https://github.com/octocat/'' = []"
proof -
  let ?s1 = "(start_state [''k1''])
              \<lparr>clock := Suc (clock (start_state [''k1''])),
               sent := sent (start_state [''k1'']) @ [rate_limit_request k1_headers]\<rparr>"
  have c: "check_and_switch_key demo_world (start_state [''k1'']) = (Inr (), ?s1)"
    unfolding demo_world_def by (rule start_check) simp
  have a: "\<not> startswith ''http://github.com/octocat'' ''https://github.com/''"
    by (simp add: startswith_def)
  have b: "startswith ''https://github.com/octocat/'' ''https://github.com/''"
    by (simp add: startswith_def)
  from username_verbatim [OF c after_check_headers, of "''http://github.com/octocat''"] a
  have "username_of ''http://github.com/octocat'' = ''http://github.com/octocat''" by blast
  moreover
  from username_verbatim [OF c after_check_headers, of "''https://github.com/octocat/''"] b
  have "username_of ''https://github.com/octocat/'' = []" by auto
  ultimately show ?thesis using a b by simp
qed

section \<open>The record processor\<close>

lemma process_record_eligible:
  assumes "py_get record ''fields'' (JDict []) = Inr flds"
    and "py_get flds ''GitHub'' (JStr []) = Inr github_url" and "truthy github_url"
    and "py_get flds ''Status'' (JStr []) = Inr (JStr ''Run'')"
    and "subscript record ''id'' = Inr rid"
    and "update_airtable_records w key base src [running_update rid] s = (Inr ok, s1)"
    and "get_user_info_from_github_api w github_url s1 = (Inr email, s2)"
    and "update_airtable_records w key base src [done_update rid email] s2 = (r3, s3)"
  shows "process_record w record key base src tgt s =
     (case r3 of
        Inl e \<Rightarrow> (Inl e, s3)
      | Inr _ \<Rightarrow>
          if truthy email then
            (case py_get flds ''Name'' (JStr []) of
               Inl e \<Rightarrow> (Inl e, s3)
             | Inr name \<Rightarrow>
                 (case py_get flds ''Repo to Link'' (JStr []) of
                    Inl e \<Rightarrow> (Inl e, s3)
                  | Inr repo \<Rightarrow>
                      (case create_airtable_records w key base tgt
                              [new_record name github_url email repo] s3 of
                         (Inl e, s4) \<Rightarrow> (Inl e, s4)
                       | (Inr _, s4) \<Rightarrow> (Inr (), s4))))
          else (Inr (), s3))"
  using assms by (simp add: process_record_def split: sum.splits)

lemma py_get_dict:
  assumes "py_get d k x = Inr v"
  shows "\<exists>v'. py_get d k' x' = Inr v'"
  using assms by (cases d) auto

text \<open>
  Claim C1. Take a record that has an id, a non-empty GitHub field and the status
  \<^verbatim>\<open>Run\<close>, and a run in which the first patch call returns and the lookup
  completes with the result \<open>email\<close> (an email or none). Then processing issues, in this
  order: a PATCH to the source table that sets the status to \<^verbatim>\<open>Running\<close>; the
  requests of the lookup, all of them GET; a PATCH to the source table that sets
  \<^verbatim>\<open>Scouted Email\<close> (the email, or the empty string if none) and the status
  \<^verbatim>\<open>Done\<close> in one update; and after it POST requests only. The PATCH requests of
  the whole processing are exactly these two.
\<close>

theorem process_record_two_patches:
  assumes "py_get record ''fields'' (JDict []) = Inr flds"
    and "py_get flds ''GitHub'' (JStr []) = Inr github_url" and "truthy github_url"
    and "py_get flds ''Status'' (JStr []) = Inr (JStr ''Run'')"
    and "subscript record ''id'' = Inr rid"
    and "update_airtable_records w key base src [running_update rid] s = (Inr ok, s1)"
    and "get_user_info_from_github_api w github_url s1 = (Inr email, s2)"
  shows "\<exists>res s' rest.
           process_record w record key base src tgt s = (res, s') \<and>
           issued s s' =
             write_request PATCH key base src [running_update rid] # issued s1 s2
               @ write_request PATCH key base src [done_update rid email] # rest \<and>
           (\<forall>rq\<in>set (issued s1 s2). meth rq = GET) \<and>
           (\<forall>rq\<in>set rest. meth rq = POST) \<and>
           filter (\<lambda>rq. meth rq = PATCH) (issued s s') =
             [write_request PATCH key base src [running_update rid],
              write_request PATCH key base src [done_update rid email]] \<and>
           running_update rid =
             JDict [(''id'', rid), (''fields'', JDict [(''Status'', JStr ''Running'')])] \<and>
           done_update rid email =
             JDict [(''id'', rid),
                    (''fields'',
                     JDict [(''Scouted Email'', if truthy email then email else JStr []),
                            (''Status'', JStr ''Done'')])]"
proof -
  let ?p1 = "write_request PATCH key base src [running_update rid]"
  let ?p2 = "write_request PATCH key base src [done_update rid email]"
  obtain r3 s3 where u2: "update_airtable_records w key base src [done_update rid email] s2 = (r3, s3)"
    by (cases "update_airtable_records w key base src [done_update rid email] s2")
  obtain res s' where pr: "process_record w record key base src tgt s = (res, s')"
    by (cases "process_record w record key base src tgt s")
  have e1: "sent s1 = sent s @ [?p1]"
    using update_airtable_records_state [OF assms(6)] by simp
  from get_user_info_any [OF assms(7)] obtain gets where
    e2: "sent s2 = sent s1 @ gets" and gets: "\<forall>rq\<in>set gets. meth rq = GET" by blast
  have e3: "sent s3 = sent s2 @ [?p2]"
    using update_airtable_records_state [OF u2] by simp
  have "\<exists>rest. sent s' = sent s3 @ rest \<and> (\<forall>rq\<in>set rest. meth rq = POST)"
  proof (cases "\<exists>name repo r4 s4. create_airtable_records w key base tgt
            [new_record name github_url email repo] s3 = (r4, s4) \<and> s' = s4")
    case True
    then obtain name repo r4 s4 where c: "create_airtable_records w key base tgt
            [new_record name github_url email repo] s3 = (r4, s4)" and "s' = s4" by blast
    with create_airtable_records_state [OF c]
    have "sent s' = sent s3 @ [write_request POST key base tgt [new_record name github_url email repo]]"
      by simp
    moreover have "meth (write_request POST key base tgt [new_record name github_url email repo]) = POST"
      by (simp add: write_request_def)
    ultimately show ?thesis by auto
  next
    case False
    have "s' = s3"
      using pr False
      unfolding process_record_eligible [OF assms u2]
      by (auto split: sum.splits if_splits prod.splits)
    then show ?thesis by simp
  qed
  then obtain rest where e4: "sent s' = sent s3 @ rest" and rest: "\<forall>rq\<in>set rest. meth rq = POST"
    by blast
  have i12: "issued s1 s2 = gets" using e2 by (rule issued_append)
  have "sent s' = sent s @ (?p1 # gets @ ?p2 # rest)" using e1 e2 e3 e4 by simp
  then have iss: "issued s s' = ?p1 # gets @ ?p2 # rest" by (rule issued_append)
  have m: "meth ?p1 = PATCH" "meth ?p2 = PATCH" by (simp_all add: write_request_def)
  have f1: "filter (\<lambda>rq. meth rq = PATCH) gets = []" using gets by (auto simp: filter_empty_conv)
  have f2: "filter (\<lambda>rq. meth rq = PATCH) rest = []" using rest by (auto simp: filter_empty_conv)
  have "filter (\<lambda>rq. meth rq = PATCH) (issued s s') = [?p1, ?p2]"
    unfolding iss using m f1 f2 by simp
  with pr iss i12 gets rest show ?thesis
    by (simp add: running_update_def done_update_def)
qed

theorem process_record_two_patches_witness:
  "truthy (JStr ''octocat'') \<and>
   (\<exists>res s' rest.
      process_record demo_world (demo_record ''Run'') ''key'' ''b'' ''src'' ''tgt''
        (start_state [''k1'']) = (res, s') \<and>
      filter (\<lambda>rq. meth rq = PATCH) (issued (start_state [''k1'']) s') =
        [write_request PATCH ''key'' ''b'' ''src'' [running_update (JStr ''rec1'')],
         write_request PATCH ''key'' ''b'' ''src''
           [done_update (JStr ''rec1'') (JStr ''x@y.com'')]])"
proof -
  have t: "truthy (JStr ''octocat'')" by simp
  from process_record_two_patches [OF demo_record_fields(1) demo_record_fields(2) t
      demo_record_fields(3) demo_record_fields(4) demo_update1 demo_lookup, of "''tgt''"] t
  show ?thesis by blast
qed

text \<open>
  Claim C2. For a record processed as in C1 whose second patch call returns as well, the
  POST requests issued are: exactly one, to the target table, if the lookup returned a
  non-empty email, and none otherwise. The record created carries the source's name, the
  GitHub field, the email, the source's repository link and the fixed tag.
\<close>

theorem process_record_creates_iff:
  assumes "py_get record ''fields'' (JDict []) = Inr flds"
    and "py_get flds ''GitHub'' (JStr []) = Inr github_url" and "truthy github_url"
    and "py_get flds ''Status'' (JStr []) = Inr (JStr ''Run'')"
    and "subscript record ''id'' = Inr rid"
    and "update_airtable_records w key base src [running_update rid] s = (Inr ok, s1)"
    and "get_user_info_from_github_api w github_url s1 = (Inr email, s2)"
    and "update_airtable_records w key base src [done_update rid email] s2 = (Inr ok2, s3)"
  shows "\<exists>res s' name repo.
           process_record w record key base src tgt s = (res, s') \<and>
           py_get flds ''Name'' (JStr []) = Inr name \<and>
           py_get flds ''Repo to Link'' (JStr []) = Inr repo \<and>
           filter (\<lambda>rq. meth rq = POST) (issued s s') =
             (if truthy email
              then [write_request POST key base tgt [new_record name github_url email repo]]
              else []) \<and>
           ((\<exists>rq\<in>set (issued s s'). meth rq = POST) \<longleftrightarrow> truthy email) \<and>
           new_record name github_url email repo =
             JDict [(''fields'',
                     JDict [(''Name'', name),
                            (''Github'', github_url),
                            (''Scouted Email'', email),
                            (''Repo to link'', repo),
                            (''Check External Hacker Github'',
                             JStr ''Update (Github Repo)'')])]"
proof -
  let ?p1 = "write_request PATCH key base src [running_update rid]"
  let ?p2 = "write_request PATCH key base src [done_update rid email]"
  from py_get_dict [OF assms(2)] obtain name repo where
    nm: "py_get flds ''Name'' (JStr []) = Inr name"
    and rp: "py_get flds ''Repo to Link'' (JStr []) = Inr repo"
    by blast
  let ?post = "write_request POST key base tgt [new_record name github_url email repo]"
  obtain r4 s4 where c: "create_airtable_records w key base tgt
      [new_record name github_url email repo] s3 = (r4, s4)"
    by (cases "create_airtable_records w key base tgt [new_record name github_url email repo] s3")
  obtain res s' where pr: "process_record w record key base src tgt s = (res, s')"
    by (cases "process_record w record key base src tgt s")
  have e1: "sent s1 = sent s @ [?p1]"
    using update_airtable_records_state [OF assms(6)] by simp
  from get_user_info_any [OF assms(7)] obtain gets where
    e2: "sent s2 = sent s1 @ gets" and gets: "\<forall>rq\<in>set gets. meth rq = GET" by blast
  have e3: "sent s3 = sent s2 @ [?p2]"
    using update_airtable_records_state [OF assms(8)] by simp
  have e4: "sent s4 = sent s3 @ [?post]"
    using create_airtable_records_state [OF c] by simp
  have m: "meth ?p1 = PATCH" "meth ?p2 = PATCH" "meth ?post = POST"
    by (simp_all add: write_request_def)
  have f1: "filter (\<lambda>rq. meth rq = POST) gets = []" using gets by (auto simp: filter_empty_conv)
  have fin: "s' = (if truthy email then s4 else s3)"
    using pr nm rp c unfolding process_record_eligible [OF assms]
    by (auto split: sum.splits)
  have "sent s' = sent s @ (?p1 # gets @ ?p2 # (if truthy email then [?post] else []))"
    using fin e1 e2 e3 e4 by simp
  then have iss: "issued s s' = ?p1 # gets @ ?p2 # (if truthy email then [?post] else [])"
    by (rule issued_append)
  have flt: "filter (\<lambda>rq. meth rq = POST) (issued s s') = (if truthy email then [?post] else [])"
    unfolding iss using m f1 by simp
  have "(\<exists>rq\<in>set (issued s s'). meth rq = POST) \<longleftrightarrow> filter (\<lambda>rq. meth rq = POST) (issued s s') \<noteq> []"
    by (auto simp: filter_empty_conv)
  then have "(\<exists>rq\<in>set (issued s s'). meth rq = POST) \<longleftrightarrow> truthy email"
    unfolding flt by simp
  with pr nm rp flt show ?thesis
    by (simp add: new_record_def)
qed

theorem process_record_creates_iff_witness:
  "truthy (JStr ''octocat'') \<and>
   (\<exists>res s'.
      process_record demo_world (demo_record ''Run'') ''key'' ''b'' ''src'' ''tgt''
        (start_state [''k1'']) = (res, s') \<and>
      filter (\<lambda>rq. meth rq = POST) (issued (start_state [''k1'']) s') =
        [write_request POST ''key'' ''b'' ''tgt''
           [new_record (JStr ''Octo'') (JStr ''octocat'') (JStr ''x@y.com'') (JStr ''repo1'')]])"
proof -
  have t: "truthy (JStr ''octocat'')" by simp
  from process_record_creates_iff [OF demo_record_fields(1) demo_record_fields(2) t
      demo_record_fields(3) demo_record_fields(4) demo_update1 demo_lookup demo_update2,
      of "''tgt''"]
  obtain res s' name repo where
    "process_record demo_world (demo_record ''Run'') ''key'' ''b'' ''src'' ''tgt''
        (start_state [''k1'']) = (res, s')"
    "py_get (demo_fields ''Run'') ''Name'' (JStr []) = Inr name"
    "py_get (demo_fields ''Run'') ''Repo to Link'' (JStr []) = Inr repo"
    "filter (\<lambda>rq. meth rq = POST) (issued (start_state [''k1'']) s') =
             (if truthy (JStr ''x@y.com'')
              then [write_request POST ''key'' ''b'' ''tgt'' [new_record name (JStr ''octocat'') (JStr ''x@y.com'') repo]]
              else [])"
    by blast
  moreover from this have "name = JStr ''Octo''" "repo = JStr ''repo1''"
    by (simp_all add: demo_fields_def)
  ultimately show ?thesis using t by simp
qed

text \<open>
  Claim C3. For a record whose GitHub field is empty or whose status is not
  \<^verbatim>\<open>Run\<close>, processing returns at once and leaves the state as it was: no request
  is issued, so nothing is patched and nothing is created.
\<close>

theorem process_record_skips:
  assumes "py_get record ''fields'' (JDict []) = Inr flds"
    and "py_get flds ''GitHub'' (JStr []) = Inr github_url"
    and "py_get flds ''Status'' (JStr []) = Inr status"
    and "\<not> truthy github_url \<or> status \<noteq> JStr ''Run''"
  shows "process_record w record key base src tgt s = (Inr (), s)"
  using assms by (auto simp: process_record_def)

theorem process_record_skips_witness:
  "JStr ''Done'' \<noteq> JStr ''Run'' \<and>
   process_record demo_world (demo_record ''Done'') ''key'' ''b'' ''src'' ''tgt''
     (start_state [''k1'']) = (Inr (), start_state [''k1''])"
proof -
  have h: "\<not> truthy (JStr ''octocat'') \<or> JStr ''Done'' \<noteq> JStr ''Run''" by simp
  from process_record_skips [OF demo_record_fields(1) demo_record_fields(2)
      demo_record_fields(3) h]
  show ?thesis by simp
qed

section \<open>Retries\<close>

lemma get_remaining_requests_recover:
  assumes "get_headers s = Inr hs" and "k \<le> 3"
    and "\<forall>i<k. transient (w (clock s + i) (rate_limit_request hs))"
    and "w (clock s + k) (rate_limit_request hs) = Reply r" and "\<not> transient (Reply r)"
  shows "get_remaining_requests w s =
           (remaining_of r,
            s\<lparr>clock := clock s + Suc k, sent := sent s @ [rate_limit_request hs]\<rparr>)"
  using assms(1)
    session_get_recover [where k = k and w = w and s = s and rq = "rate_limit_request hs" and r = r,
      OF assms(2-5)]
  by (simp add: get_remaining_requests_def)

lemma readme_no_retry:
  assumes "transient (w (clock s) (readme_request username hs))"
  shows "get_email_from_readme w username hs s =
           (case w (clock s) (readme_request username hs) of
              NoConnection \<Rightarrow> Inl ConnectionError | Reply _ \<Rightarrow> Inr None,
            s\<lparr>clock := Suc (clock s), sent := sent s @ [readme_request username hs]\<rparr>)"
  using assms
  by (auto simp: get_email_from_readme_def single_attempt transient_iff split: reply.splits)

lemma fetch_no_retry:
  assumes "transient (w (clock s) (list_request key base t))"
  shows "get_airtable_records w key base t s =
           (case w (clock s) (list_request key base t) of
              NoConnection \<Rightarrow> Inl ConnectionError | Reply _ \<Rightarrow> Inr (JList []),
            s\<lparr>clock := Suc (clock s), sent := sent s @ [list_request key base t]\<rparr>)"
  using assms
  by (auto simp: get_airtable_records_def single_attempt transient_iff split: reply.splits)

lemma update_no_retry:
  assumes "transient (w (clock s) (write_request PATCH key base t recs))"
  shows "update_airtable_records w key base t recs s =
           (case w (clock s) (write_request PATCH key base t recs) of
              NoConnection \<Rightarrow> Inl ConnectionError | Reply _ \<Rightarrow> Inr False,
            s\<lparr>clock := Suc (clock s), sent := sent s @ [write_request PATCH key base t recs]\<rparr>)"
  using assms
  by (auto simp: update_airtable_records_def single_attempt transient_iff split: reply.splits)

lemma create_no_retry:
  assumes "transient (w (clock s) (write_request POST key base t recs))"
  shows "create_airtable_records w key base t recs s =
           (case w (clock s) (write_request POST key base t recs) of
              NoConnection \<Rightarrow> Inl ConnectionError | Reply _ \<Rightarrow> Inr False,
            s\<lparr>clock := Suc (clock s), sent := sent s @ [write_request POST key base t recs]\<rparr>)"
  using assms
  by (auto simp: create_airtable_records_def single_attempt transient_iff split: reply.splits)

text \<open>
  Claim C8, at a README server that answers 502 once and would then serve a README holding
  an address. The claim says that every outbound call recovers from such a failure by
  retry. \<open>get_email_from_readme\<close> makes a single attempt and reports that no email was
  found: it calls \<^verbatim>\<open>requests.get\<close> directly (line 73), where its sibling
  \<open>get_remaining_requests\<close>, against a rate-limit server that fails in the same way,
  goes through the session, tries again and returns the quota. The same first answer makes
  the patch of a record (line 97) report failure after a single attempt.
\<close>

theorem readme_fetch_without_retry:
  "flaky_readme 0 (readme_request ''octocat'' k1_headers) = Reply bad_gateway \<and>
   status_code bad_gateway = 502 \<and>
   flaky_readme 1 (readme_request ''octocat'' k1_headers) =
     Reply (ok_response ''Contact: <jane@example.com>'' None) \<and>
   get_email_from_readme flaky_readme ''octocat'' k1_headers (start_state [''k1'']) =
     (Inr None,
      (start_state [''k1''])\<lparr>clock := 1, sent := [readme_request ''octocat'' k1_headers]\<rparr>) \<and>
   get_remaining_requests flaky_rate_limit (start_state [''k1'']) =
     (Inr (JInt 5000),
      (start_state [''k1''])\<lparr>clock := 2, sent := [rate_limit_request k1_headers]\<rparr>) \<and>
   update_airtable_records flaky_readme ''key'' ''b'' ''src'' [] (start_state [''k1'']) =
     (Inr False,
      (start_state [''k1''])\<lparr>clock := 1, sent := [write_request PATCH ''key'' ''b'' ''src'' []]\<rparr>)"
proof -
  have sc: "status_code bad_gateway = 502" by (simp add: bad_gateway_def)
  have a: "flaky_readme 0 (readme_request ''octocat'' k1_headers) = Reply bad_gateway"
    by (simp add: flaky_readme_def flaky_world_def)
  have b: "flaky_readme 1 (readme_request ''octocat'' k1_headers) =
     Reply (ok_response ''Contact: <jane@example.com>'' None)"
    by (simp add: flaky_readme_def flaky_world_def url_world_def readme_request_def)
  have c: "get_email_from_readme flaky_readme ''octocat'' k1_headers (start_state [''k1'']) =
     (Inr None,
      (start_state [''k1''])\<lparr>clock := 1, sent := [readme_request ''octocat'' k1_headers]\<rparr>)"
    by (simp add: get_email_from_readme_def single_attempt flaky_readme_def flaky_world_def
        start_state_def sc)
  have "get_remaining_requests flaky_rate_limit (start_state [''k1'']) =
     (remaining_of (rate_limit_body 5000),
      (start_state [''k1''])\<lparr>clock := clock (start_state [''k1'']) + Suc 1,
         sent := sent (start_state [''k1'']) @ [rate_limit_request k1_headers]\<rparr>)"
  proof (rule get_remaining_requests_recover)
    show "get_headers (start_state [''k1'']) = Inr k1_headers" by (rule start_headers)
    show "(1::nat) \<le> 3" by simp
    show "\<forall>i<1. transient (flaky_rate_limit (clock (start_state [''k1'']) + i)
        (rate_limit_request k1_headers))"
      by (simp add: flaky_rate_limit_def flaky_world_def transient_bad_gateway start_state_def)
    show "flaky_rate_limit (clock (start_state [''k1'']) + 1) (rate_limit_request k1_headers)
        = Reply (rate_limit_body 5000)"
      by (simp add: flaky_rate_limit_def flaky_world_def start_state_def url_world_def
          rate_limit_request_def)
    show "\<not> transient (Reply (rate_limit_body 5000))"
      by (simp add: transient_iff rate_limit_body_def ok_response_def has_retry_after_def)
  qed
  then have d: "get_remaining_requests flaky_rate_limit (start_state [''k1'']) =
     (Inr (JInt 5000),
      (start_state [''k1''])\<lparr>clock := 2, sent := [rate_limit_request k1_headers]\<rparr>)"
    by (simp add: remaining_of_def rate_limit_body_def ok_response_def start_state_def)
  have e: "update_airtable_records flaky_readme ''key'' ''b'' ''src'' [] (start_state [''k1'']) =
     (Inr False,
      (start_state [''k1''])\<lparr>clock := 1, sent := [write_request PATCH ''key'' ''b'' ''src'' []]\<rparr>)"
    by (simp add: update_airtable_records_def single_attempt flaky_readme_def flaky_world_def
        start_state_def sc)
  from sc a b c d e show ?thesis by simp
qed

end
